theory Spec2Isabelle
  imports Main "HOL-Library.Word"
begin

unbundle bit_operations_syntax

section \<open>The ready list (cuda\_ready\_list.cu)\<close>

subsection \<open>Data\<close>

text \<open>
  The priority key is an \<^verbatim>\<open>unsigned long\<close>: 64 bits on the LP64 targets the scheduler is
  built for, so \<^verbatim>\<open>8 * sizeof(unsigned long)\<close> is 64. The last-use counts are held in
  \<^verbatim>\<open>int16_t\<close> locals. The other instruction attributes are \<^verbatim>\<open>InstCount\<close> values; they are
  kept as integers and converted to \<^verbatim>\<open>unsigned long\<close> where the source passes them to
  \<^verbatim>\<open>AddPrirtyToKey_\<close>.
\<close>

type_synonym ulong = "64 word"
type_synonym int16 = "16 word"

datatype LISTSCHED_HEURISTIC =
  LSH_CP | LSH_CPR | LSH_LUC | LSH_UC | LSH_NID | LSH_LLVM | LSH_ISO | LSH_SC | LSH_LS

text \<open>
  \<^verbatim>\<open>SchedPriorities\<close>: the first \<open>cnt\<close> entries of the array \<open>vctr\<close> are the configured
  criteria, most significant first.
\<close>

record SchedPriorities =
  cnt :: nat
  vctr :: "LISTSCHED_HEURISTIC list"
  isDynmc :: bool

text \<open>
  An instruction, with the attributes the key computation reads.
  Modelled from the spec: the class \<^verbatim>\<open>SchedInstruction\<close> is declared outside the two source
  files. \<open>ready\<close> is the transient "is ready-queued" flag behind \<^verbatim>\<open>IsInReadyList\<close>,
  \<^verbatim>\<open>PutInReadyList\<close> and \<^verbatim>\<open>RemoveFromReadyList\<close>; \<open>lastUseCnt\<close> is the last use count of
  the previous computation (\<^verbatim>\<open>GetLastUseCnt\<close>) and \<open>liveLastUseCnt\<close> the value a
  recomputation (\<^verbatim>\<open>CmputLastUseCnt\<close>) yields in the current scheduling state.
\<close>

record SchedInstruction =
  num :: nat
  nodeID :: int
  crtclPath :: int
  useCnt :: int
  scsrCnt :: int
  ltncySum :: int
  fileSchedOrder :: int
  lastUseCnt :: int16
  liveLastUseCnt :: int16
  ready :: bool

record DataDepGraph =
  insts :: "SchedInstruction list"
  GetRootCrntLwrBound :: int
  GetMaxUseCnt :: int
  GetMaxFileSchedOrder :: int
  GetMaxScsrCnt :: int
  GetMaxLtncySum :: int

text \<open>
  The ready list; the members are named as in the source, without the trailing
  underscore, which a constant name cannot end with. \<open>prirtyLst\<close> holds (instruction number, key) pairs in iteration
  order, \<open>latestSubLst\<close> the instruction indices recorded by the latest sublist
  additions. The graph is reached through a pointer in the source; the model keeps it
  inside the record, so that the flags of its instructions are part of the state.
  The maxima and widths of criteria that are not configured are never read; the source
  leaves the maxima uninitialised, the model has 0 there.
\<close>

record ReadyList =
  dataDepGraph :: DataDepGraph
  prirts :: SchedPriorities
  prirtyLst :: "(nat \<times> ulong) list"
  latestSubLst :: "nat list"
  useCntBits :: nat
  crtclPathBits :: nat
  scsrCntBits :: nat
  ltncySumBits :: nat
  nodeID_Bits :: nat
  inptSchedOrderBits :: nat
  maxUseCnt :: int
  maxCrtclPath :: int
  maxScsrCnt :: int
  maxLtncySum :: int
  maxNodeID :: int
  maxInptSchedOrder :: int
  maxPriority :: ulong

text \<open>
  A failed \<^verbatim>\<open>assert\<close> and an access outside an array (undefined in the source) are the
  two ways an operation of the ready list does not return normally.
\<close>

datatype rl_error = AssertFailed | OutOfRange

subsection \<open>Field widths\<close>

fun bitsOfNat :: "nat \<Rightarrow> nat" where
  "bitsOfNat n = (if n = 0 then 0 else Suc (bitsOfNat (n div 2)))"

declare bitsOfNat.simps [simp del]

text \<open>
  Modelled from the spec: \<^verbatim>\<open>Utilities::clcltBitsNeededToHoldNum\<close> is defined outside the
  two source files. The spec gives a field exactly \<open>\<lceil>log2(maxValue+1)\<rceil>\<close> bits: the number of
  halvings that bring the (unsigned) value to zero.
\<close>

definition clcltBitsNeededToHoldNum :: "ulong \<Rightarrow> nat" where
  "clcltBitsNeededToHoldNum v = bitsOfNat (unat v)"

definition GetInstCnt :: "DataDepGraph \<Rightarrow> int" where
  "GetInstCnt g = int (length (insts g))"

subsection \<open>Key packing\<close>

text \<open>
  \<^verbatim>\<open>AddPrirtyToKey_\<close>: the key and the key size are reference parameters, returned
  updated.
  A shift by 64 or more is undefined in the source and gives 0 here; it cannot happen in
  a ready list whose construction passed the width check, where the widths sum to at
  most 64.
\<close>

definition AddPrirtyToKey ::
  "ulong \<Rightarrow> nat \<Rightarrow> nat \<Rightarrow> ulong \<Rightarrow> ulong \<Rightarrow> rl_error + (ulong \<times> nat)" where
  "AddPrirtyToKey key keySize bitCnt val maxVal =
     (if \<not> val \<le> maxVal then Inl AssertFailed
      else let key1 = (if keySize > 0 then push_bit bitCnt key else key)
           in Inr (key1 OR val, keySize + bitCnt))"

subsection \<open>Construction\<close>

text \<open>The first loop of the constructor: one criterion, the widths and their 16-bit sum.\<close>

fun ctorBits :: "DataDepGraph \<Rightarrow> LISTSCHED_HEURISTIC \<Rightarrow> ReadyList \<times> nat \<Rightarrow> ReadyList \<times> nat" where
  "ctorBits g LSH_CP (rl, totKeyBits) =
     (let m = GetRootCrntLwrBound g; b = clcltBitsNeededToHoldNum (word_of_int m)
      in (rl\<lparr>maxCrtclPath := m, crtclPathBits := b\<rparr>, (totKeyBits + b) mod 65536))"
| "ctorBits g LSH_CPR (rl, totKeyBits) =
     (let m = GetRootCrntLwrBound g; b = clcltBitsNeededToHoldNum (word_of_int m)
      in (rl\<lparr>maxCrtclPath := m, crtclPathBits := b\<rparr>, (totKeyBits + b) mod 65536))"
| "ctorBits g LSH_LUC (rl, totKeyBits) =
     (let m = GetMaxUseCnt g; b = clcltBitsNeededToHoldNum (word_of_int m)
      in (rl\<lparr>maxUseCnt := m, useCntBits := b\<rparr>, (totKeyBits + b) mod 65536))"
| "ctorBits g LSH_UC (rl, totKeyBits) =
     (let m = GetMaxUseCnt g; b = clcltBitsNeededToHoldNum (word_of_int m)
      in (rl\<lparr>maxUseCnt := m, useCntBits := b\<rparr>, (totKeyBits + b) mod 65536))"
| "ctorBits g LSH_NID (rl, totKeyBits) =
     (let m = GetInstCnt g - 1; b = clcltBitsNeededToHoldNum (word_of_int m)
      in (rl\<lparr>maxNodeID := m, nodeID_Bits := b\<rparr>, (totKeyBits + b) mod 65536))"
| "ctorBits g LSH_LLVM (rl, totKeyBits) =
     (let m = GetInstCnt g - 1; b = clcltBitsNeededToHoldNum (word_of_int m)
      in (rl\<lparr>maxNodeID := m, nodeID_Bits := b\<rparr>, (totKeyBits + b) mod 65536))"
| "ctorBits g LSH_ISO (rl, totKeyBits) =
     (let m = GetMaxFileSchedOrder g; b = clcltBitsNeededToHoldNum (word_of_int m)
      in (rl\<lparr>maxInptSchedOrder := m, inptSchedOrderBits := b\<rparr>, (totKeyBits + b) mod 65536))"
| "ctorBits g LSH_SC (rl, totKeyBits) =
     (let m = GetMaxScsrCnt g; b = clcltBitsNeededToHoldNum (word_of_int m)
      in (rl\<lparr>maxScsrCnt := m, scsrCntBits := b\<rparr>, (totKeyBits + b) mod 65536))"
| "ctorBits g LSH_LS (rl, totKeyBits) =
     (let m = GetMaxLtncySum g; b = clcltBitsNeededToHoldNum (word_of_int m)
      in (rl\<lparr>maxLtncySum := m, ltncySumBits := b\<rparr>, (totKeyBits + b) mod 65536))"

fun ctorBitsLoop :: "DataDepGraph \<Rightarrow> LISTSCHED_HEURISTIC list \<Rightarrow> ReadyList \<times> nat \<Rightarrow> ReadyList \<times> nat" where
  "ctorBitsLoop g [] s = s"
| "ctorBitsLoop g (h # hs) s = ctorBitsLoop g hs (ctorBits g h s)"

text \<open>The second loop: the maximum of each criterion packed into \<open>maxPriority\<close>.\<close>

fun ctorMax :: "ReadyList \<Rightarrow> LISTSCHED_HEURISTIC \<Rightarrow> ulong \<Rightarrow> nat \<Rightarrow> rl_error + (ulong \<times> nat)" where
  "ctorMax rl LSH_CP k ks =
     AddPrirtyToKey k ks (crtclPathBits rl) (word_of_int (maxCrtclPath rl)) (word_of_int (maxCrtclPath rl))"
| "ctorMax rl LSH_CPR k ks =
     AddPrirtyToKey k ks (crtclPathBits rl) (word_of_int (maxCrtclPath rl)) (word_of_int (maxCrtclPath rl))"
| "ctorMax rl LSH_LUC k ks =
     AddPrirtyToKey k ks (useCntBits rl) (word_of_int (maxUseCnt rl)) (word_of_int (maxUseCnt rl))"
| "ctorMax rl LSH_UC k ks =
     AddPrirtyToKey k ks (useCntBits rl) (word_of_int (maxUseCnt rl)) (word_of_int (maxUseCnt rl))"
| "ctorMax rl LSH_NID k ks =
     AddPrirtyToKey k ks (nodeID_Bits rl) (word_of_int (maxNodeID rl)) (word_of_int (maxNodeID rl))"
| "ctorMax rl LSH_LLVM k ks =
     AddPrirtyToKey k ks (nodeID_Bits rl) (word_of_int (maxNodeID rl)) (word_of_int (maxNodeID rl))"
| "ctorMax rl LSH_ISO k ks =
     AddPrirtyToKey k ks (inptSchedOrderBits rl) (word_of_int (maxInptSchedOrder rl))
       (word_of_int (maxInptSchedOrder rl))"
| "ctorMax rl LSH_SC k ks =
     AddPrirtyToKey k ks (scsrCntBits rl) (word_of_int (maxScsrCnt rl)) (word_of_int (maxScsrCnt rl))"
| "ctorMax rl LSH_LS k ks =
     AddPrirtyToKey k ks (ltncySumBits rl) (word_of_int (maxLtncySum rl)) (word_of_int (maxLtncySum rl))"

fun ctorMaxLoop :: "ReadyList \<Rightarrow> LISTSCHED_HEURISTIC list \<Rightarrow> ulong \<Rightarrow> nat \<Rightarrow> rl_error + (ulong \<times> nat)" where
  "ctorMaxLoop rl [] k ks = Inr (k, ks)"
| "ctorMaxLoop rl (h # hs) k ks =
     (case ctorMax rl h k ks of
        Inl e \<Rightarrow> Inl e
      | Inr (k1, ks1) \<Rightarrow> ctorMaxLoop rl hs k1 ks1)"

definition emptyReadyList :: "DataDepGraph \<Rightarrow> SchedPriorities \<Rightarrow> ReadyList" where
  "emptyReadyList g p =
     \<lparr>dataDepGraph = g, prirts = p, prirtyLst = [], latestSubLst = [],
      useCntBits = 0, crtclPathBits = 0, scsrCntBits = 0, ltncySumBits = 0,
      nodeID_Bits = 0, inptSchedOrderBits = 0,
      maxUseCnt = 0, maxCrtclPath = 0, maxScsrCnt = 0, maxLtncySum = 0,
      maxNodeID = 0, maxInptSchedOrder = 0, maxPriority = 0\<rparr>"

text \<open>
  The constructor. Reading \<open>vctr\<close> beyond its end is an access outside the array.
\<close>

definition ReadyList_new :: "DataDepGraph \<Rightarrow> SchedPriorities \<Rightarrow> rl_error + ReadyList" where
  "ReadyList_new g p =
     (if cnt p > length (vctr p) then Inl OutOfRange
      else case ctorBitsLoop g (take (cnt p) (vctr p)) (emptyReadyList g p, 0) of
        (rl, totKeyBits) \<Rightarrow>
          if \<not> totKeyBits \<le> 64 then Inl AssertFailed
          else (case ctorMaxLoop rl (take (cnt p) (vctr p)) 0 0 of
                  Inl e \<Rightarrow> Inl e
                | Inr (k, ks) \<Rightarrow> Inr (rl\<lparr>maxPriority := k\<rparr>)))"

definition MaxPriority :: "ReadyList \<Rightarrow> ulong" where
  "MaxPriority rl = maxPriority rl"

subsection \<open>Computing the key of an instruction\<close>

text \<open>
  Modelled from the spec: \<^verbatim>\<open>SchedInstruction::CmputLastUseCnt\<close> is defined outside the two
  source files. It recomputes the last use count, stores it in the instruction and
  returns it.
\<close>

definition CmputLastUseCnt :: "SchedInstruction \<Rightarrow> SchedInstruction \<times> int16" where
  "CmputLastUseCnt inst = (inst\<lparr>lastUseCnt := liveLastUseCnt inst\<rparr>, liveLastUseCnt inst)"

text \<open>
  One round of the loop of \<^verbatim>\<open>CmputKey_\<close>. The state is the instruction (whose stored last
  use count the dynamic criterion updates), the key, the key size and the \<open>changed\<close> flag.
\<close>

fun CmputKeyStep ::
  "ReadyList \<Rightarrow> LISTSCHED_HEURISTIC \<Rightarrow> SchedInstruction \<times> ulong \<times> nat \<times> bool \<Rightarrow>
   rl_error + (SchedInstruction \<times> ulong \<times> nat \<times> bool)" where
  "CmputKeyStep rl LSH_CP (inst, key, keySize, changed) =
     (case AddPrirtyToKey key keySize (crtclPathBits rl) (word_of_int (crtclPath inst))
             (word_of_int (maxCrtclPath rl)) of
        Inl e \<Rightarrow> Inl e | Inr (k, ks) \<Rightarrow> Inr (inst, k, ks, changed))"
| "CmputKeyStep rl LSH_CPR (inst, key, keySize, changed) =
     (case AddPrirtyToKey key keySize (crtclPathBits rl) (word_of_int (crtclPath inst))
             (word_of_int (maxCrtclPath rl)) of
        Inl e \<Rightarrow> Inl e | Inr (k, ks) \<Rightarrow> Inr (inst, k, ks, changed))"
| "CmputKeyStep rl LSH_LUC (inst, key, keySize, changed) =
     (let oldLastUseCnt = lastUseCnt inst;
          (inst1, newLastUseCnt) = CmputLastUseCnt inst;
          changed1 = (if newLastUseCnt \<noteq> oldLastUseCnt then True else changed)
      in case AddPrirtyToKey key keySize (useCntBits rl) (scast newLastUseCnt)
                (word_of_int (maxUseCnt rl)) of
           Inl e \<Rightarrow> Inl e | Inr (k, ks) \<Rightarrow> Inr (inst1, k, ks, changed1))"
| "CmputKeyStep rl LSH_UC (inst, key, keySize, changed) =
     (case AddPrirtyToKey key keySize (useCntBits rl) (word_of_int (useCnt inst))
             (word_of_int (maxUseCnt rl)) of
        Inl e \<Rightarrow> Inl e | Inr (k, ks) \<Rightarrow> Inr (inst, k, ks, changed))"
| "CmputKeyStep rl LSH_NID (inst, key, keySize, changed) =
     (case AddPrirtyToKey key keySize (nodeID_Bits rl) (word_of_int (maxNodeID rl - nodeID inst))
             (word_of_int (maxNodeID rl)) of
        Inl e \<Rightarrow> Inl e | Inr (k, ks) \<Rightarrow> Inr (inst, k, ks, changed))"
| "CmputKeyStep rl LSH_LLVM (inst, key, keySize, changed) =
     (case AddPrirtyToKey key keySize (nodeID_Bits rl) (word_of_int (maxNodeID rl - nodeID inst))
             (word_of_int (maxNodeID rl)) of
        Inl e \<Rightarrow> Inl e | Inr (k, ks) \<Rightarrow> Inr (inst, k, ks, changed))"
| "CmputKeyStep rl LSH_ISO (inst, key, keySize, changed) =
     (case AddPrirtyToKey key keySize (inptSchedOrderBits rl)
             (word_of_int (maxInptSchedOrder rl - fileSchedOrder inst))
             (word_of_int (maxInptSchedOrder rl)) of
        Inl e \<Rightarrow> Inl e | Inr (k, ks) \<Rightarrow> Inr (inst, k, ks, changed))"
| "CmputKeyStep rl LSH_SC (inst, key, keySize, changed) =
     (case AddPrirtyToKey key keySize (scsrCntBits rl) (word_of_int (scsrCnt inst))
             (word_of_int (maxScsrCnt rl)) of
        Inl e \<Rightarrow> Inl e | Inr (k, ks) \<Rightarrow> Inr (inst, k, ks, changed))"
| "CmputKeyStep rl LSH_LS (inst, key, keySize, changed) =
     (case AddPrirtyToKey key keySize (ltncySumBits rl) (word_of_int (ltncySum inst))
             (word_of_int (maxLtncySum rl)) of
        Inl e \<Rightarrow> Inl e | Inr (k, ks) \<Rightarrow> Inr (inst, k, ks, changed))"

fun CmputKeyLoop ::
  "ReadyList \<Rightarrow> LISTSCHED_HEURISTIC list \<Rightarrow> SchedInstruction \<times> ulong \<times> nat \<times> bool \<Rightarrow>
   rl_error + (SchedInstruction \<times> ulong \<times> nat \<times> bool)" where
  "CmputKeyLoop rl [] s = Inr s"
| "CmputKeyLoop rl (h # hs) s =
     (case CmputKeyStep rl h s of Inl e \<Rightarrow> Inl e | Inr s1 \<Rightarrow> CmputKeyLoop rl hs s1)"

text \<open>
  \<^verbatim>\<open>CmputKey_\<close> returns the key, the \<open>changed\<close> flag (a reference parameter) and the
  instruction as the recomputation left it.
\<close>

definition CmputKey :: "ReadyList \<Rightarrow> SchedInstruction \<Rightarrow> bool \<Rightarrow> rl_error + (ulong \<times> bool \<times> SchedInstruction)" where
  "CmputKey rl inst isUpdate =
     (if cnt (prirts rl) > length (vctr (prirts rl)) then Inl OutOfRange
      else case CmputKeyLoop rl (take (cnt (prirts rl)) (vctr (prirts rl)))
                  (inst, 0, 0, (if isUpdate then False else True)) of
        Inl e \<Rightarrow> Inl e
      | Inr (inst1, key, keySize, changed) \<Rightarrow> Inr (key, changed, inst1))"

subsection \<open>The vocabulary of the key layout\<close>

text \<open>
  Which graph maximum, which stored maximum, which stored width and which field value a
  criterion uses: read off the \<^verbatim>\<open>switch\<close> statements of the constructor and of
  \<^verbatim>\<open>CmputKey_\<close>.
\<close>

fun criterionMax :: "DataDepGraph \<Rightarrow> LISTSCHED_HEURISTIC \<Rightarrow> int" where
  "criterionMax g LSH_CP = GetRootCrntLwrBound g"
| "criterionMax g LSH_CPR = GetRootCrntLwrBound g"
| "criterionMax g LSH_LUC = GetMaxUseCnt g"
| "criterionMax g LSH_UC = GetMaxUseCnt g"
| "criterionMax g LSH_NID = GetInstCnt g - 1"
| "criterionMax g LSH_LLVM = GetInstCnt g - 1"
| "criterionMax g LSH_ISO = GetMaxFileSchedOrder g"
| "criterionMax g LSH_SC = GetMaxScsrCnt g"
| "criterionMax g LSH_LS = GetMaxLtncySum g"

definition fieldMax :: "DataDepGraph \<Rightarrow> LISTSCHED_HEURISTIC \<Rightarrow> ulong" where
  "fieldMax g h = word_of_int (criterionMax g h)"

definition fieldWidth :: "DataDepGraph \<Rightarrow> LISTSCHED_HEURISTIC \<Rightarrow> nat" where
  "fieldWidth g h = clcltBitsNeededToHoldNum (fieldMax g h)"

fun storedMax :: "ReadyList \<Rightarrow> LISTSCHED_HEURISTIC \<Rightarrow> int" where
  "storedMax rl LSH_CP = maxCrtclPath rl"
| "storedMax rl LSH_CPR = maxCrtclPath rl"
| "storedMax rl LSH_LUC = maxUseCnt rl"
| "storedMax rl LSH_UC = maxUseCnt rl"
| "storedMax rl LSH_NID = maxNodeID rl"
| "storedMax rl LSH_LLVM = maxNodeID rl"
| "storedMax rl LSH_ISO = maxInptSchedOrder rl"
| "storedMax rl LSH_SC = maxScsrCnt rl"
| "storedMax rl LSH_LS = maxLtncySum rl"

fun storedBits :: "ReadyList \<Rightarrow> LISTSCHED_HEURISTIC \<Rightarrow> nat" where
  "storedBits rl LSH_CP = crtclPathBits rl"
| "storedBits rl LSH_CPR = crtclPathBits rl"
| "storedBits rl LSH_LUC = useCntBits rl"
| "storedBits rl LSH_UC = useCntBits rl"
| "storedBits rl LSH_NID = nodeID_Bits rl"
| "storedBits rl LSH_LLVM = nodeID_Bits rl"
| "storedBits rl LSH_ISO = inptSchedOrderBits rl"
| "storedBits rl LSH_SC = scsrCntBits rl"
| "storedBits rl LSH_LS = ltncySumBits rl"

text \<open>The value an instruction contributes to the field of a criterion.\<close>

fun fieldVal :: "ReadyList \<Rightarrow> SchedInstruction \<Rightarrow> LISTSCHED_HEURISTIC \<Rightarrow> ulong" where
  "fieldVal rl inst LSH_CP = word_of_int (crtclPath inst)"
| "fieldVal rl inst LSH_CPR = word_of_int (crtclPath inst)"
| "fieldVal rl inst LSH_LUC = scast (liveLastUseCnt inst)"
| "fieldVal rl inst LSH_UC = word_of_int (useCnt inst)"
| "fieldVal rl inst LSH_NID = word_of_int (maxNodeID rl - nodeID inst)"
| "fieldVal rl inst LSH_LLVM = word_of_int (maxNodeID rl - nodeID inst)"
| "fieldVal rl inst LSH_ISO = word_of_int (maxInptSchedOrder rl - fileSchedOrder inst)"
| "fieldVal rl inst LSH_SC = word_of_int (scsrCnt inst)"
| "fieldVal rl inst LSH_LS = word_of_int (ltncySum inst)"

text \<open>
  The layout the spec describes: the fields, given as (width, value) pairs in configured
  order, each shifted left by the widths of the fields after it, joined by bitwise OR.
\<close>

fun packFields :: "(nat \<times> ulong) list \<Rightarrow> ulong" where
  "packFields [] = 0"
| "packFields ((w, v) # fs) = push_bit (sum_list (map fst fs)) v OR packFields fs"

definition configured :: "SchedPriorities \<Rightarrow> LISTSCHED_HEURISTIC list" where
  "configured p = take (cnt p) (vctr p)"

subsection \<open>The instructions of the graph\<close>

text \<open>
  Modelled from the spec: \<^verbatim>\<open>DataDepGraph::GetInstByIndx\<close> is defined outside the two source
  files; the spec gives the graph "random access by index". An index outside the table
  is an access outside an array. A \<^verbatim>\<open>SchedInstruction *\<close> is modelled by the index of the
  instruction it points to.
\<close>

definition GetInstByIndx :: "DataDepGraph \<Rightarrow> nat \<Rightarrow> rl_error + SchedInstruction" where
  "GetInstByIndx g i = (if i < length (insts g) then Inr (insts g ! i) else Inl OutOfRange)"

text \<open>Writing through the pointer to instruction \<open>i\<close>.\<close>

definition putInst :: "ReadyList \<Rightarrow> nat \<Rightarrow> SchedInstruction \<Rightarrow> ReadyList" where
  "putInst rl i inst =
     rl\<lparr>dataDepGraph := (dataDepGraph rl)\<lparr>insts := (insts (dataDepGraph rl))[i := inst]\<rparr>\<rparr>"

text \<open>
  Modelled from the spec: \<^verbatim>\<open>IsInReadyList\<close>, \<^verbatim>\<open>PutInReadyList\<close> and
  \<^verbatim>\<open>RemoveFromReadyList\<close> of \<^verbatim>\<open>SchedInstruction\<close> are defined outside the two source files;
  they read, set and clear the "is ready-queued" flag.
\<close>

definition IsInReadyList :: "SchedInstruction \<Rightarrow> bool" where
  "IsInReadyList inst = ready inst"

definition PutInReadyList :: "SchedInstruction \<Rightarrow> SchedInstruction" where
  "PutInReadyList inst = inst\<lparr>ready := True\<rparr>"

definition RemoveFromReadyList :: "SchedInstruction \<Rightarrow> SchedInstruction" where
  "RemoveFromReadyList inst = inst\<lparr>ready := False\<rparr>"

subsection \<open>The priority-ordered container\<close>

text \<open>
  Modelled from the spec: the class \<^verbatim>\<open>PriorityArrayList\<close> is defined outside the two
  source files. The spec describes an ordered container of (instruction, key) pairs into
  which an entry is inserted in priority order and which is iterated from the highest
  key. \<open>InsrtElmnt\<close> puts the new entry before the first entry with a smaller key
  (the only call in the source allows duplicates).
\<close>

fun InsrtElmnt :: "nat \<Rightarrow> ulong \<Rightarrow> (nat \<times> ulong) list \<Rightarrow> (nat \<times> ulong) list" where
  "InsrtElmnt elmnt key [] = [(elmnt, key)]"
| "InsrtElmnt elmnt key ((e, k) # xs) =
     (if k < key then (elmnt, key) # (e, k) # xs else (e, k) # InsrtElmnt elmnt key xs)"

fun RmvElmnt :: "nat \<Rightarrow> (nat \<times> ulong) list \<Rightarrow> (nat \<times> ulong) list" where
  "RmvElmnt elmnt [] = []"
| "RmvElmnt elmnt ((e, k) # xs) = (if e = elmnt then xs else (e, k) # RmvElmnt elmnt xs)"

text \<open>
  Modelled from the spec: \<^verbatim>\<open>PriorityArrayList::BoostElmnt\<close> reorders the entry of an
  instruction whose key changed: the entry leaves its place and enters, with the new
  key, in priority order.
\<close>

definition BoostElmnt :: "nat \<Rightarrow> ulong \<Rightarrow> (nat \<times> ulong) list \<Rightarrow> (nat \<times> ulong) list" where
  "BoostElmnt elmnt newKey xs = InsrtElmnt elmnt newKey (RmvElmnt elmnt xs)"

subsection \<open>Operations of the ready list\<close>

text \<open>
  \<^verbatim>\<open>AddInst\<close>: the key is computed (which stores the recomputed last use count in the
  instruction), \<open>changed\<close> is asserted, and the entry is inserted under the instruction's
  number. The position of the iterator of the container is not part of the model.
\<close>

definition AddInst :: "ReadyList \<Rightarrow> nat \<Rightarrow> rl_error + ReadyList" where
  "AddInst rl i =
     (case GetInstByIndx (dataDepGraph rl) i of
        Inl e \<Rightarrow> Inl e
      | Inr inst \<Rightarrow>
          (case CmputKey rl inst False of
             Inl e \<Rightarrow> Inl e
           | Inr (key, changed, inst1) \<Rightarrow>
               if \<not> changed then Inl AssertFailed
               else Inr ((putInst rl i inst1)\<lparr>prirtyLst := InsrtElmnt (num inst1) key (prirtyLst rl)\<rparr>)))"

text \<open>
  The loop of \<^verbatim>\<open>AddLatestSubList_\<close> over the sequence from its last element to its first
  (the argument is the reversed sequence). Modelled from the spec: \<^verbatim>\<open>ArrayList\<close> is
  defined outside the two source files; its \<^verbatim>\<open>InsrtElmnt\<close> records an element at the end
  of the list.
\<close>

fun AddLatestSubListLoop :: "nat list \<Rightarrow> ReadyList \<Rightarrow> rl_error + ReadyList" where
  "AddLatestSubListLoop [] rl = Inr rl"
| "AddLatestSubListLoop (crntInstNum # rest) rl =
     (case GetInstByIndx (dataDepGraph rl) crntInstNum of
        Inl e \<Rightarrow> Inl e
      | Inr crntInst \<Rightarrow>
          if IsInReadyList crntInst then Inr rl
          else (case AddInst rl crntInstNum of
                  Inl e \<Rightarrow> Inl e
                | Inr rl1 \<Rightarrow>
                    AddLatestSubListLoop rest
                      ((putInst rl1 crntInstNum
                          (PutInReadyList (insts (dataDepGraph rl1) ! crntInstNum)))
                         \<lparr>latestSubLst := latestSubLst rl1 @ [crntInstNum]\<rparr>)))"

definition AddLatestSubList :: "ReadyList \<Rightarrow> nat list \<Rightarrow> rl_error + ReadyList" where
  "AddLatestSubList rl lst = AddLatestSubListLoop (rev lst) rl"

text \<open>\<^verbatim>\<open>AddLatestSubLists\<close>: a null pointer is \<open>None\<close>.\<close>

definition AddLatestSubLists :: "ReadyList \<Rightarrow> nat list option \<Rightarrow> nat list option \<Rightarrow> rl_error + ReadyList" where
  "AddLatestSubLists rl lst1 lst2 =
     (if latestSubLst rl \<noteq> [] then Inl AssertFailed
      else case (case lst1 of None \<Rightarrow> Inr rl | Some l1 \<Rightarrow> AddLatestSubList rl l1) of
        Inl e \<Rightarrow> Inl e
      | Inr rl1 \<Rightarrow> (case lst2 of None \<Rightarrow> Inr rl1 | Some l2 \<Rightarrow> AddLatestSubList rl1 l2))"

fun RemoveLatestSubListLoop :: "nat list \<Rightarrow> ReadyList \<Rightarrow> rl_error + ReadyList" where
  "RemoveLatestSubListLoop [] rl = Inr rl"
| "RemoveLatestSubListLoop (instNum # rest) rl =
     (case GetInstByIndx (dataDepGraph rl) instNum of
        Inl e \<Rightarrow> Inl e
      | Inr inst \<Rightarrow>
          if \<not> IsInReadyList inst then Inl AssertFailed
          else RemoveLatestSubListLoop rest (putInst rl instNum (RemoveFromReadyList inst)))"

definition RemoveLatestSubList :: "ReadyList \<Rightarrow> rl_error + ReadyList" where
  "RemoveLatestSubList rl = RemoveLatestSubListLoop (latestSubLst rl) rl"

definition Reset :: "ReadyList \<Rightarrow> ReadyList" where
  "Reset rl = rl\<lparr>prirtyLst := [], latestSubLst := []\<rparr>"

text \<open>
  \<^verbatim>\<open>UpdatePriorities\<close>. Modelled from the spec: the iteration of \<^verbatim>\<open>PriorityArrayList\<close>
  (\<^verbatim>\<open>GetFrstElmnt\<close>, \<^verbatim>\<open>GetNxtElmnt\<close>) is defined outside the two source files; the spec has
  the operation recompute the key of each queued instruction, so the loop visits the
  instructions queued when it starts, in order.
\<close>

fun UpdatePrioritiesLoop :: "nat list \<Rightarrow> ReadyList \<Rightarrow> rl_error + ReadyList" where
  "UpdatePrioritiesLoop [] rl = Inr rl"
| "UpdatePrioritiesLoop (instNum # rest) rl =
     (case GetInstByIndx (dataDepGraph rl) instNum of
        Inl e \<Rightarrow> Inl e
      | Inr inst \<Rightarrow>
          (case CmputKey rl inst True of
             Inl e \<Rightarrow> Inl e
           | Inr (key, instChanged, inst1) \<Rightarrow>
               UpdatePrioritiesLoop rest
                 (if instChanged
                  then (putInst rl instNum inst1)\<lparr>prirtyLst := BoostElmnt instNum key (prirtyLst rl)\<rparr>
                  else putInst rl instNum inst1)))"

definition UpdatePriorities :: "ReadyList \<Rightarrow> rl_error + ReadyList" where
  "UpdatePriorities rl =
     (if \<not> isDynmc (prirts rl) then Inl AssertFailed
      else UpdatePrioritiesLoop (map fst (prirtyLst rl)) rl)"

subsection \<open>Observations and auxiliary notions\<close>

definition readyFlags :: "ReadyList \<Rightarrow> bool list" where
  "readyFlags rl = map ready (insts (dataDepGraph rl))"

definition flagsOf :: "rl_error + ReadyList \<Rightarrow> bool list option" where
  "flagsOf r = (case r of Inl e \<Rightarrow> None | Inr rl \<Rightarrow> Some (readyFlags rl))"

definition latestOf :: "rl_error + ReadyList \<Rightarrow> nat list option" where
  "latestOf r = (case r of Inl e \<Rightarrow> None | Inr rl \<Rightarrow> Some (latestSubLst rl))"

definition thenRemove :: "rl_error + ReadyList \<Rightarrow> rl_error + ReadyList" where
  "thenRemove r = (case r of Inl e \<Rightarrow> Inl e | Inr rl \<Rightarrow> RemoveLatestSubList rl)"

section \<open>The scheduling region (cuda\_sched\_region.cu)\<close>

subsection \<open>Data\<close>

text \<open>
  \<^verbatim>\<open>InstCount\<close> and \<^verbatim>\<open>Milliseconds\<close> values are integers; costs and lengths stay far from
  the limits of their machine types, and signed overflow is undefined in the source, so
  no wrap-around is modelled.
\<close>

datatype FUNC_RESULT = RES_ERROR | RES_FAIL | RES_SUCCESS | RES_TIMEOUT | RES_END

text \<open>Of the spill cost functions only \<^verbatim>\<open>SCF_SLIL\<close> is told apart by the region.\<close>

datatype SPILL_COST_FUNCTION = SCF_SLIL | SCF_other

text \<open>
  The retention policies; the last stands for every value that none of the tests of the
  function names.
\<close>

datatype BLOCKS_TO_KEEP = ZERO_COST | OPTIMAL | IMPROVED | IMPROVED_OR_OPTIMAL | KEEP_ALL

text \<open>
  The schedule objects \<^verbatim>\<open>FindOptimalSchedule\<close> allocates, named by the variable that first
  holds them. A pointer to a schedule is an option, \<open>None\<close> the null pointer.
\<close>

datatype sched = lstSched_obj | AcoSchedule_obj | enumBestSched_obj | enumCrntSched_obj
  | AcoAfterEnumSchedule_obj

text \<open>
  The inputs of one run: the parameters of the call, the configuration, the members of
  the region set before the call, and what the collaborators that are defined outside
  the two source files answer when they are called (the graph, the list scheduler, the
  ant colony scheduler, the enumerator, the bound computations of the derived class,
  the register allocation simulation, the verifier). \<open>INVALID_VALUE\<close> is a constant
  of the code base declared outside the two source files.
\<close>

record env =
  rgnTimeout :: int
  filterByPerp :: bool
  blocksToKeep :: BLOCKS_TO_KEEP
  HEUR_ENABLED :: bool
  ACO_ENABLED :: bool
  ACO_BEFORE_ENUM :: bool
  ACO_AFTER_ENUM :: bool
  ENUM_ENABLED :: bool
  SIMULATE_REGISTER_ALLOCATION :: string
  INVALID_VALUE :: int
  isSecondPass :: bool
  vrfySched :: bool
  spillCostFunc :: SPILL_COST_FUNCTION
  entry_hurstcCost :: int
  entry_bestCost :: int
  entry_bestSchedLngth :: int
  entry_costLwrBound :: int
  entry_schedUprBound :: int
  graphInstCnt :: int
  SetupForSchdulng_rslt :: FUNC_RESULT
  GraphTransformations :: "(FUNC_RESULT \<times> FUNC_RESULT) list"
  GetSchedLwrBound :: int
  CmputCostLwrBound :: "int \<Rightarrow> int"
  frwrdLwrBound :: int
  bkwrdLwrBound :: int
  lst_rslt :: FUNC_RESULT
  lst_CrntLngth :: int
  lst_Cost :: int
  lst_PeakRegPressures :: "int list"
  GetPhysRegCnt :: "nat \<Rightarrow> int"
  aco_rslt :: FUNC_RESULT
  aco_CrntLngth :: int
  aco_Cost :: int
  CmputSchedUprBound :: int
  EnableEnum :: bool
  enum_rslt :: FUNC_RESULT
  enum_bestCost :: int
  enum_bestSchedLngth :: int
  regAllocList_Cost :: int
  regAllocBest_Cost :: int
  acoAfter_rslt :: FUNC_RESULT
  acoAfter_Cost :: int
  acoAfter_CrntLngth :: int
  Verify :: bool
  ChkSchedule :: bool

text \<open>
  The variables of the caller that the reference parameters are bound to, as they are
  when the call is made (the schedule pointer is assigned before it is read).
\<close>

record caller =
  c_isLstOptml :: bool
  c_bestCost :: int
  c_bestSchedLngth :: int
  c_hurstcCost :: int
  c_hurstcSchedLngth :: int

text \<open>
  The state of a run: the members of the region (named without the trailing underscore)
  and the locals of \<^verbatim>\<open>FindOptimalSchedule\<close>; the reference parameters, prefixed \<open>ref_\<close>
  where a member has the same name; and what the run did to its collaborators: how often
  the enumerator and the verifier were invoked, the bounds handed to
  \<^verbatim>\<open>SetFinalBounds\<close>, the schedules deleted, whether the list scheduler object was deleted.
\<close>

record rgn =
  bestCost :: int
  bestSchedLngth :: int
  hurstcCost :: int
  bestSched :: "sched option"
  enumBestSched :: "sched option"
  enumCrntSched :: "sched option"
  schedLwrBound :: int
  schedUprBound :: int
  costLwrBound :: int
  totalSimSpills :: int
  rslt :: FUNC_RESULT
  lstSchdulr :: bool
  lstSched :: "sched option"
  AcoSchedule :: "sched option"
  InitialSchedule :: "sched option"
  InitialScheduleLength :: int
  InitialScheduleCost :: int
  heuristicScheduleLength :: int
  AcoScheduleLength :: int
  AcoScheduleCost :: int
  AcoBeforeEnum :: bool
  AcoAfterEnum :: bool
  isLstOptml :: bool
  ref_bestCost :: int
  ref_bestSchedLngth :: int
  ref_hurstcCost :: int
  ref_hurstcSchedLngth :: int
  ref_bestSched :: "sched option"
  isHard :: bool
  enumCalls :: nat
  verifyCalls :: nat
  invalidSchedules :: nat
  finalBounds :: "(int \<times> int) option"
  deleted :: "sched list"
  lstSchdulrDeleted :: bool

text \<open>
  A run ends in a crash (a failed \<^verbatim>\<open>assert\<close> or a null pointer dereferenced) or returns
  a result code at one of the \<^verbatim>\<open>return\<close> statements of the function.
\<close>

datatype exit_point =
  AtNoAlgorithm | AtSetup | AtApplyTrans | AtUpdateSetup | AtListSched | AtAco
  | AtEnableEnum | AtDiscard | AtEnd

datatype outcome = Crash | Returned exit_point FUNC_RESULT rgn

subsection \<open>The schedules\<close>

text \<open>
  Length and cost of the schedule objects, as their producers left them. The schedules
  of the enumerator are not read through these accessors by the function.
\<close>

fun GetCrntLngth :: "env \<Rightarrow> sched \<Rightarrow> int" where
  "GetCrntLngth e lstSched_obj = lst_CrntLngth e"
| "GetCrntLngth e AcoSchedule_obj = aco_CrntLngth e"
| "GetCrntLngth e AcoAfterEnumSchedule_obj = acoAfter_CrntLngth e"
| "GetCrntLngth e enumBestSched_obj = enum_bestSchedLngth e"
| "GetCrntLngth e enumCrntSched_obj = enum_bestSchedLngth e"

fun GetCost :: "env \<Rightarrow> sched \<Rightarrow> int" where
  "GetCost e lstSched_obj = lst_Cost e"
| "GetCost e AcoSchedule_obj = aco_Cost e"
| "GetCost e AcoAfterEnumSchedule_obj = acoAfter_Cost e"
| "GetCost e enumBestSched_obj = enum_bestCost e"
| "GetCost e enumCrntSched_obj = enum_bestCost e"

subsection \<open>The stages of FindOptimalSchedule\<close>

definition isBbEnabled :: "env \<Rightarrow> bool" where
  "isBbEnabled e =
     (if \<not> ENUM_ENABLED e then False
      else if rgnTimeout e \<le> 0 then False
      else True)"

text \<open>The state when the body starts: the locals as declared, the members as the caller left them.\<close>

definition entryState :: "env \<Rightarrow> caller \<Rightarrow> rgn" where
  "entryState e c =
     \<lparr>bestCost = entry_bestCost e, bestSchedLngth = entry_bestSchedLngth e,
      hurstcCost = entry_hurstcCost e, bestSched = None, enumBestSched = None,
      enumCrntSched = None, schedLwrBound = 0, schedUprBound = entry_schedUprBound e,
      costLwrBound = entry_costLwrBound e, totalSimSpills = INVALID_VALUE e,
      rslt = RES_SUCCESS, lstSchdulr = False, lstSched = None, AcoSchedule = None,
      InitialSchedule = None, InitialScheduleLength = 0, InitialScheduleCost = 0,
      heuristicScheduleLength = INVALID_VALUE e, AcoScheduleLength = INVALID_VALUE e,
      AcoScheduleCost = INVALID_VALUE e, AcoBeforeEnum = False, AcoAfterEnum = False,
      isLstOptml = c_isLstOptml c, ref_bestCost = c_bestCost c,
      ref_bestSchedLngth = c_bestSchedLngth c, ref_hurstcCost = c_hurstcCost c,
      ref_hurstcSchedLngth = c_hurstcSchedLngth c, ref_bestSched = None,
      isHard = False, enumCalls = 0, verifyCalls = 0, invalidSchedules = 0,
      finalBounds = None, deleted = [], lstSchdulrDeleted = False\<rparr>"

text \<open>Lines 150--165: the configuration is read; without a producing algorithm the run ends.\<close>

definition stageConfig :: "env \<Rightarrow> rgn \<Rightarrow> outcome + rgn" where
  "stageConfig e s =
     (let s1 = (if ACO_ENABLED e
                then s\<lparr>AcoBeforeEnum := ACO_BEFORE_ENUM e, AcoAfterEnum := ACO_AFTER_ENUM e\<rparr>
                else s)
      in if \<not> HEUR_ENABLED e \<and> \<not> AcoBeforeEnum s1
         then Inl (Returned AtNoAlgorithm RES_ERROR s1)
         else Inr s1)"

text \<open>Lines 186--199: the graph transformations, each followed by an update of the setup.\<close>

fun applyTransLoop :: "(FUNC_RESULT \<times> FUNC_RESULT) list \<Rightarrow> rgn \<Rightarrow> outcome + rgn" where
  "applyTransLoop [] s = Inr s"
| "applyTransLoop ((applyRslt, updateRslt) # GTs) s =
     (if applyRslt \<noteq> RES_SUCCESS then Inl (Returned AtApplyTrans applyRslt (s\<lparr>rslt := applyRslt\<rparr>))
      else if updateRslt \<noteq> RES_SUCCESS
      then Inl (Returned AtUpdateSetup updateRslt (s\<lparr>rslt := updateRslt\<rparr>))
      else applyTransLoop GTs (s\<lparr>rslt := updateRslt\<rparr>))"

text \<open>Lines 175--199.\<close>

definition stageSetup :: "env \<Rightarrow> rgn \<Rightarrow> outcome + rgn" where
  "stageSetup e s =
     (let s1 = s\<lparr>rslt := SetupForSchdulng_rslt e\<rparr>
      in if rslt s1 \<noteq> RES_SUCCESS then Inl (Returned AtSetup (rslt s1) s1)
         else applyTransLoop (GraphTransformations e) s1)"

text \<open>
  \<^verbatim>\<open>CmputLwrBounds_\<close> with \<open>useFileBounds = false\<close>; the lengths the two relaxed
  schedulers find are inputs of the run.
\<close>

definition CmputLwrBounds :: "env \<Rightarrow> rgn \<Rightarrow> outcome + rgn" where
  "CmputLwrBounds e s =
     (let rlxdLwrBound = max (frwrdLwrBound e) (bkwrdLwrBound e)
      in if \<not> rlxdLwrBound \<ge> schedLwrBound s then Inl Crash
         else let s1 = (if rlxdLwrBound > schedLwrBound s then s\<lparr>schedLwrBound := rlxdLwrBound\<rparr> else s)
              in Inr (s1\<lparr>costLwrBound := CmputCostLwrBound e (schedLwrBound s1)\<rparr>))"

text \<open>Lines 201--210.\<close>

definition stageLwrBounds :: "env \<Rightarrow> rgn \<Rightarrow> outcome + rgn" where
  "stageLwrBounds e s =
     (let s1 = s\<lparr>schedLwrBound := GetSchedLwrBound e\<rparr>
      in if \<not> isBbEnabled e
         then Inr (s1\<lparr>costLwrBound := CmputCostLwrBound e (schedLwrBound s1)\<rparr>)
         else CmputLwrBounds e s1)"

text \<open>Lines 220--379: the heuristic pass, on the host.\<close>

definition stageHeuristic :: "env \<Rightarrow> rgn \<Rightarrow> outcome + rgn" where
  "stageHeuristic e s =
     (if HEUR_ENABLED e \<or> isSecondPass e then
        (let s1 = s\<lparr>lstSchdulr := True, rslt := lst_rslt e\<rparr>
         in if rslt s1 \<noteq> RES_SUCCESS
            then Inl (Returned AtListSched (rslt s1) (s1\<lparr>lstSchdulrDeleted := True\<rparr>))
            else let s2 = s1\<lparr>lstSched := Some lstSched_obj,
                            heuristicScheduleLength := GetCrntLngth e lstSched_obj,
                            hurstcCost := GetCost e lstSched_obj\<rparr>
                 in if hurstcCost s2 = 0
                    then Inr (s2\<lparr>isLstOptml := True, ref_bestSched := lstSched s2,
                                 bestSched := lstSched s2,
                                 bestSchedLngth := heuristicScheduleLength s2,
                                 bestCost := hurstcCost s2\<rparr>)
                    else Inr s2)
      else Inr s)"

text \<open>Lines 383--419: the ant colony pass before the enumeration.\<close>

definition stageAco :: "env \<Rightarrow> rgn \<Rightarrow> outcome + rgn" where
  "stageAco e s =
     (let s1 = (if AcoBeforeEnum s \<and> graphInstCnt e < 20 then s\<lparr>AcoBeforeEnum := False\<rparr> else s)
      in if AcoBeforeEnum s1 \<and> \<not> isLstOptml s1 then
           (let s2 = s1\<lparr>AcoSchedule := Some AcoSchedule_obj, rslt := aco_rslt e\<rparr>
            in if rslt s2 \<noteq> RES_SUCCESS
               then Inl (Returned AtAco (rslt s2)
                      (s2\<lparr>lstSchdulrDeleted := lstSchdulr s2,
                          deleted := (case lstSched s2 of None \<Rightarrow> [] | Some l \<Rightarrow> [l]) @ [AcoSchedule_obj]\<rparr>))
               else let s3 = s2\<lparr>AcoScheduleLength := GetCrntLngth e AcoSchedule_obj,
                               AcoScheduleCost := GetCost e AcoSchedule_obj\<rparr>
                    in if AcoScheduleCost s3 = 0
                       then Inr (s3\<lparr>isLstOptml := True, ref_bestSched := AcoSchedule s3,
                                    bestSched := AcoSchedule s3,
                                    bestSchedLngth := AcoScheduleLength s3,
                                    bestCost := AcoScheduleCost s3\<rparr>)
                       else Inr s3)
         else Inr s1)"

text \<open>
  Lines 425--449: the schedule that goes into the enumeration. In the third case the
  length and the cost are read from the chosen schedule, which is not null there.
\<close>

definition stageIncumbent :: "env \<Rightarrow> rgn \<Rightarrow> outcome + rgn" where
  "stageIncumbent e s =
     (if \<not> isLstOptml s then
        (if \<not> AcoBeforeEnum s
         then Inr (s\<lparr>ref_bestSched := lstSched s, bestSched := lstSched s,
                     bestSchedLngth := heuristicScheduleLength s, bestCost := hurstcCost s\<rparr>)
         else if \<not> HEUR_ENABLED e
         then Inr (s\<lparr>ref_bestSched := AcoSchedule s, bestSched := AcoSchedule s,
                     bestSchedLngth := AcoScheduleLength s, bestCost := AcoScheduleCost s\<rparr>)
         else (case (if AcoScheduleCost s < hurstcCost s then AcoSchedule s else lstSched s) of
                 None \<Rightarrow> Inl Crash
               | Some b \<Rightarrow>
                   Inr (s\<lparr>bestSched := Some b, ref_bestSched := Some b,
                          bestSchedLngth := GetCrntLngth e b, bestCost := GetCost e b\<rparr>)))
      else Inr s)"

text \<open>\<^verbatim>\<open>CmputUprBounds_\<close> with \<open>useFileBounds = false\<close>; its result is not used.\<close>

definition CmputUprBounds :: "env \<Rightarrow> sched \<Rightarrow> rgn \<Rightarrow> rgn" where
  "CmputUprBounds e schedule s =
     (if bestCost s = 0 then s\<lparr>schedUprBound := bestSchedLngth s\<rparr>
      else if isSecondPass e then s\<lparr>schedUprBound := GetCrntLngth e schedule\<rparr>
      else s\<lparr>schedUprBound := CmputSchedUprBound e\<rparr>)"

text \<open>Lines 451--458: the two assertions and the upper bound.\<close>

definition stageUprBounds :: "env \<Rightarrow> rgn \<Rightarrow> outcome + rgn" where
  "stageUprBounds e s =
     (if \<not> bestSchedLngth s \<ge> schedLwrBound s then Inl Crash
      else case bestSched s of
        None \<Rightarrow> Inl Crash
      | Some b \<Rightarrow>
          if \<not> schedLwrBound s \<le> GetCrntLngth e b then Inl Crash
          else Inr (CmputUprBounds e b s))"

text \<open>The loop of lines 474--478 over the register types.\<close>

fun sumPerpLoop :: "env \<Rightarrow> int list \<Rightarrow> nat \<Rightarrow> int \<Rightarrow> int" where
  "sumPerpLoop e [] i sumPerp = sumPerp"
| "sumPerpLoop e (p # ps) i sumPerp =
     (let perp = p - GetPhysRegCnt e i
      in sumPerpLoop e ps (Suc i) (if perp > 0 then sumPerp + perp else sumPerp))"

text \<open>Lines 470--483: a list schedule without excess register pressure counts as optimal.\<close>

definition stagePerp :: "env \<Rightarrow> rgn \<Rightarrow> outcome + rgn" where
  "stagePerp e s =
     (if filterByPerp e \<and> \<not> isLstOptml s \<and> spillCostFunc e = SCF_SLIL then
        (case lstSched s of
           None \<Rightarrow> Inl Crash
         | Some l \<Rightarrow>
             if sumPerpLoop e (lst_PeakRegPressures e) 0 0 = 0
             then Inr (s\<lparr>isLstOptml := True\<rparr>)
             else Inr s)
      else Inr s)"

text \<open>Lines 503--514: the gate of the derived class, then the initial schedule is noted.\<close>

definition stageEnableEnum :: "env \<Rightarrow> rgn \<Rightarrow> outcome + rgn" where
  "stageEnableEnum e s =
     (if EnableEnum e = False
      then Inl (Returned AtEnableEnum RES_FAIL (s\<lparr>lstSchdulrDeleted := lstSchdulr s\<rparr>))
      else Inr (s\<lparr>InitialSchedule := bestSched s, InitialScheduleCost := bestCost s,
                  InitialScheduleLength := bestSchedLngth s\<rparr>))"

text \<open>
  \<^verbatim>\<open>Optimize_\<close>: the two schedules of the enumerator are allocated and \<^verbatim>\<open>Enumerate_\<close> runs;
  it leaves its best cost and length in the members of the region.
\<close>

definition Optimize :: "env \<Rightarrow> rgn \<Rightarrow> FUNC_RESULT \<times> rgn" where
  "Optimize e s =
     (enum_rslt e,
      s\<lparr>enumCrntSched := Some enumCrntSched_obj, enumBestSched := Some enumBestSched_obj,
        enumCalls := Suc (enumCalls s),
        bestCost := enum_bestCost e, bestSchedLngth := enum_bestSchedLngth e\<rparr>)"

text \<open>\<^verbatim>\<open>RegAlloc_\<close>, called with the best and the initial schedule.\<close>

definition RegAlloc :: "env \<Rightarrow> rgn \<Rightarrow> rgn" where
  "RegAlloc e s =
     (let mode = SIMULATE_REGISTER_ALLOCATION e;
          s1 = (if mode = ''BEST'' \<or> mode = ''BOTH'' \<or> mode = ''TAKE_SCHED_WITH_LEAST_SPILLS''
                then s\<lparr>totalSimSpills := regAllocBest_Cost e\<rparr> else s)
      in if mode = ''TAKE_SCHED_WITH_LEAST_SPILLS''
         then (if regAllocList_Cost e < regAllocBest_Cost e
               then s1\<lparr>ref_bestSched := InitialSchedule s1\<rparr> else s1)
         else s1)"

text \<open>Lines 517--574: the enumeration.\<close>

definition stageEnum :: "env \<Rightarrow> rgn \<Rightarrow> outcome + rgn" where
  "stageEnum e s =
     (if isBbEnabled e then
        (case (if \<not> isLstOptml s then
                 (case Optimize e (s\<lparr>isHard := True\<rparr>) of
                    (r, s1) \<Rightarrow>
                      let s2 = s1\<lparr>rslt := r\<rparr>
                      in if bestCost s2 < InitialScheduleCost s2
                         then (case enumBestSched s2 of
                                 None \<Rightarrow> Inl Crash
                               | Some b \<Rightarrow> Inr (s2\<lparr>bestSched := Some b, ref_bestSched := Some b\<rparr>))
                         else Inr s2)
               else Inr s) of
           Inl out \<Rightarrow> Inl out
         | Inr s3 \<Rightarrow>
             if SIMULATE_REGISTER_ALLOCATION e \<noteq> ''NO'' then Inr (RegAlloc e s3) else Inr s3)
      else Inr s)"

text \<open>Lines 577--604: the ant colony pass after the enumeration.\<close>

definition stageAcoAfter :: "env \<Rightarrow> rgn \<Rightarrow> outcome + rgn" where
  "stageAcoAfter e s =
     (if bestCost s \<noteq> 0 \<and> AcoAfterEnum s then
        (if acoAfter_rslt e \<noteq> RES_SUCCESS
         then Inr (s\<lparr>deleted := deleted s @ [AcoAfterEnumSchedule_obj]\<rparr>)
         else if GetCost e AcoAfterEnumSchedule_obj < bestCost s
         then Inr (s\<lparr>bestSched := Some AcoAfterEnumSchedule_obj,
                     ref_bestSched := Some AcoAfterEnumSchedule_obj,
                     bestCost := GetCost e AcoAfterEnumSchedule_obj,
                     bestSchedLngth := GetCrntLngth e AcoAfterEnumSchedule_obj\<rparr>)
         else Inr (s\<lparr>deleted := deleted s @ [AcoAfterEnumSchedule_obj]\<rparr>))
      else Inr s)"

text \<open>Lines 606--613: the verification of the best schedule.\<close>

definition stageVerify :: "env \<Rightarrow> rgn \<Rightarrow> outcome + rgn" where
  "stageVerify e s =
     (if vrfySched e then
        (case ref_bestSched s of
           None \<Rightarrow> Inl Crash
         | Some b \<Rightarrow>
             let s1 = s\<lparr>verifyCalls := Suc (verifyCalls s)\<rparr>
             in if Verify e = False then Inr (s1\<lparr>invalidSchedules := Suc (invalidSchedules s1)\<rparr>)
                else Inr s1)
      else Inr s)"

text \<open>Lines 618--623: the final bounds.\<close>

definition stageFinalBounds :: "env \<Rightarrow> rgn \<Rightarrow> outcome + rgn" where
  "stageFinalBounds e s =
     (let finalLwrBound = costLwrBound s;
          finalUprBound = costLwrBound s + bestCost s;
          finalLwrBound1 = (if rslt s = RES_SUCCESS then finalUprBound else finalLwrBound)
      in Inr (s\<lparr>finalBounds := Some (finalLwrBound1, finalUprBound)\<rparr>))"

text \<open>Lines 627--631: the check of the derived class.\<close>

definition stageChkSchedule :: "env \<Rightarrow> rgn \<Rightarrow> outcome + rgn" where
  "stageChkSchedule e s =
     (if ChkSchedule e = False
      then Inr (s\<lparr>bestCost := InitialScheduleCost s, bestSchedLngth := InitialScheduleLength s\<rparr>)
      else Inr s)"

text \<open>Lines 633--645: every schedule that is not the returned one is deleted.\<close>

definition stageFree :: "env \<Rightarrow> rgn \<Rightarrow> outcome + rgn" where
  "stageFree e s =
     (let d1 = (if lstSched s \<noteq> None \<and> ref_bestSched s \<noteq> lstSched s then [lstSched_obj] else []);
          d2 = (if AcoSchedule s \<noteq> None \<and> ref_bestSched s \<noteq> AcoSchedule s then [AcoSchedule_obj] else []);
          d3 = (if enumBestSched s \<noteq> None \<and> ref_bestSched s \<noteq> enumBestSched s
                then [enumBestSched_obj] else []);
          d4 = (if enumCrntSched s \<noteq> None then [enumCrntSched_obj] else [])
      in Inr (s\<lparr>lstSchdulrDeleted := lstSchdulr s, deleted := deleted s @ d1 @ d2 @ d3 @ d4\<rparr>))"

text \<open>Lines 647--650: the reference parameters are assigned.\<close>

definition stageOutputs :: "env \<Rightarrow> rgn \<Rightarrow> outcome + rgn" where
  "stageOutputs e s =
     Inr (s\<lparr>ref_bestCost := bestCost s, ref_bestSchedLngth := bestSchedLngth s,
            ref_hurstcCost := hurstcCost s, ref_hurstcSchedLngth := heuristicScheduleLength s\<rparr>)"

text \<open>Lines 653--665: the schedule is discarded when the retention policy says so.\<close>

definition stageDiscard :: "env \<Rightarrow> rgn \<Rightarrow> outcome + rgn" where
  "stageDiscard e s =
     (if spillCostFunc e = SCF_SLIL then
        (let optimal = (isLstOptml s \<or> rslt s = RES_SUCCESS)
         in if (blocksToKeep e = ZERO_COST \<and> ref_bestCost s \<noteq> 0) \<or>
               (blocksToKeep e = OPTIMAL \<and> \<not> optimal) \<or>
               (blocksToKeep e = IMPROVED \<and> \<not> (ref_bestCost s < InitialScheduleCost s)) \<or>
               (blocksToKeep e = IMPROVED_OR_OPTIMAL \<and>
                  \<not> (optimal \<or> ref_bestCost s < InitialScheduleCost s))
            then Inl (Returned AtDiscard (rslt s)
                   (s\<lparr>deleted := deleted s @ (case ref_bestSched s of None \<Rightarrow> [] | Some b \<Rightarrow> [b]),
                       ref_bestSched := None\<rparr>))
            else Inr s)
      else Inr s)"

subsection \<open>FindOptimalSchedule\<close>

fun runStages :: "(rgn \<Rightarrow> outcome + rgn) list \<Rightarrow> rgn \<Rightarrow> outcome + rgn" where
  "runStages [] s = Inr s"
| "runStages (f # fs) s = (case f s of Inl out \<Rightarrow> Inl out | Inr s1 \<Rightarrow> runStages fs s1)"

text \<open>The stages up to the choice of the incumbent, the stages up to the final bounds, and the rest.\<close>

definition preSearchStages :: "env \<Rightarrow> (rgn \<Rightarrow> outcome + rgn) list" where
  "preSearchStages e =
     [stageConfig e, stageSetup e, stageLwrBounds e, stageHeuristic e, stageAco e, stageIncumbent e]"

definition searchStages :: "env \<Rightarrow> (rgn \<Rightarrow> outcome + rgn) list" where
  "searchStages e =
     [stageUprBounds e, stagePerp e, stageEnableEnum e, stageEnum e, stageAcoAfter e, stageVerify e]"

definition finishStages :: "env \<Rightarrow> (rgn \<Rightarrow> outcome + rgn) list" where
  "finishStages e =
     [stageFinalBounds e, stageChkSchedule e, stageFree e, stageOutputs e, stageDiscard e]"

definition preSearch :: "env \<Rightarrow> caller \<Rightarrow> outcome + rgn" where
  "preSearch e c = runStages (preSearchStages e) (entryState e c)"

definition beforeFinalBounds :: "env \<Rightarrow> caller \<Rightarrow> outcome + rgn" where
  "beforeFinalBounds e c = runStages (preSearchStages e @ searchStages e) (entryState e c)"

definition FindOptimalSchedule :: "env \<Rightarrow> caller \<Rightarrow> outcome" where
  "FindOptimalSchedule e c =
     (case runStages (preSearchStages e @ searchStages e @ finishStages e) (entryState e c) of
        Inl out \<Rightarrow> out
      | Inr s \<Rightarrow> Returned AtEnd (rslt s) s)"

section \<open>Auxiliary definitions for the proofs\<close>

fun keyFold :: "(nat \<times> ulong \<times> ulong) list \<Rightarrow> ulong \<Rightarrow> nat \<Rightarrow> rl_error + (ulong \<times> nat)" where
  "keyFold [] k ks = Inr (k, ks)"
| "keyFold ((b, v, m) # fs) k ks =
     (case AddPrirtyToKey k ks b v m of Inl e \<Rightarrow> Inl e | Inr (k1, ks1) \<Rightarrow> keyFold fs k1 ks1)"

definition fitting :: "(nat \<times> ulong \<times> ulong) list \<Rightarrow> bool" where
  "fitting fs = list_all (\<lambda>(b, v, m). v \<le> m \<and> (b = 0 \<longrightarrow> m = 0)) fs"

definition lucInst :: "LISTSCHED_HEURISTIC list \<Rightarrow> SchedInstruction \<Rightarrow> SchedInstruction" where
  "lucInst hs inst = (if LSH_LUC \<in> set hs then inst\<lparr>lastUseCnt := liveLastUseCnt inst\<rparr> else inst)"

definition lucChanged :: "LISTSCHED_HEURISTIC list \<Rightarrow> SchedInstruction \<Rightarrow> bool" where
  "lucChanged hs inst = (LSH_LUC \<in> set hs \<and> liveLastUseCnt inst \<noteq> lastUseCnt inst)"

definition instFields :: "ReadyList \<Rightarrow> SchedInstruction \<Rightarrow> LISTSCHED_HEURISTIC list \<Rightarrow> (nat \<times> ulong \<times> ulong) list" where
  "instFields rl inst hs = map (\<lambda>h. (storedBits rl h, fieldVal rl inst h, word_of_int (storedMax rl h))) hs"

definition laidOut :: "DataDepGraph \<Rightarrow> ReadyList \<Rightarrow> LISTSCHED_HEURISTIC \<Rightarrow> bool" where
  "laidOut g rl h = (storedBits rl h = fieldWidth g h \<and> storedMax rl h = criterionMax g h)"

definition sameLists :: "ReadyList \<Rightarrow> ReadyList \<Rightarrow> bool" where
  "sameLists rl rl' = (dataDepGraph rl' = dataDepGraph rl \<and> prirts rl' = prirts rl \<and>
     prirtyLst rl' = prirtyLst rl \<and> latestSubLst rl' = latestSubLst rl)"

definition narrow :: "(nat \<times> ulong) list \<Rightarrow> bool" where
  "narrow fs = list_all (\<lambda>(b, v). unat v < 2 ^ b) fs"

definition wellConfigured :: "DataDepGraph \<Rightarrow> ReadyList \<Rightarrow> bool" where
  "wellConfigured g rl =
     (cnt (prirts rl) \<le> length (vctr (prirts rl)) \<and>
      list_all (laidOut g rl) (configured (prirts rl)) \<and>
      sum_list (map (fieldWidth g) (configured (prirts rl))) \<le> 64)"

fun scanned :: "bool list \<Rightarrow> nat list \<Rightarrow> nat list" where
  "scanned q [] = []"
| "scanned q (i # is) = (if q ! i then [] else i # scanned (q[i := True]) is)"

definition markAll :: "bool \<Rightarrow> nat list \<Rightarrow> bool list \<Rightarrow> bool list" where
  "markAll b is q = fold (\<lambda>i q. q[i := b]) is q"

text \<open>
  A small graph and two priority configurations for the concrete checks: the first needs
  3 + 2 bits, the second 31 + 31 + 3 bits.
\<close>

definition exInst :: "nat \<Rightarrow> int \<Rightarrow> int \<Rightarrow> SchedInstruction" where
  "exInst n cp uc = \<lparr>num = n, nodeID = int n, crtclPath = cp, useCnt = uc, scsrCnt = 1, ltncySum = 1,
     fileSchedOrder = int n, lastUseCnt = 0, liveLastUseCnt = 0, ready = False\<rparr>"

definition exGraph :: DataDepGraph where
  "exGraph = \<lparr>insts = [exInst 0 2 3, exInst 1 3 3, exInst 2 5 0], GetRootCrntLwrBound = 5,
     GetMaxUseCnt = 3, GetMaxFileSchedOrder = 2,
     GetMaxScsrCnt = 2147483647, GetMaxLtncySum = 2147483647\<rparr>"

definition exPrirts :: SchedPriorities where
  "exPrirts = \<lparr>cnt = 2, vctr = [LSH_CP, LSH_UC], isDynmc = False\<rparr>"

definition exWidePrirts :: SchedPriorities where
  "exWidePrirts = \<lparr>cnt = 3, vctr = [LSH_SC, LSH_LS, LSH_CP], isDynmc = False\<rparr>"

definition exReadyList :: ReadyList where
  "exReadyList = \<lparr>dataDepGraph = exGraph, prirts = exPrirts, prirtyLst = [], latestSubLst = [],
      useCntBits = 2, crtclPathBits = 3, scsrCntBits = 0, ltncySumBits = 0,
      nodeID_Bits = 0, inptSchedOrderBits = 0,
      maxUseCnt = 3, maxCrtclPath = 5, maxScsrCnt = 0, maxLtncySum = 0,
      maxNodeID = 0, maxInptSchedOrder = 0, maxPriority = 23\<rparr>"

text \<open>
  The precondition of the truncated scan: whenever an element of the sequence is queued,
  the elements before it are queued as well.
\<close>

definition queuedBefore :: "bool list \<Rightarrow> nat list \<Rightarrow> bool" where
  "queuedBefore q lst = (\<forall>j < length lst. q ! (lst ! j) \<longrightarrow> (\<forall>k < j. q ! (lst ! k)))"

text \<open>
  States of the example ready list: after \<open>AddInst\<close> of instruction 0, after the latest
  sublist \<open>[0]\<close> was added, and after the sublist \<open>[0, 2]\<close> was added to that.
\<close>

definition exAfterAddInst :: ReadyList where
  "exAfterAddInst = exReadyList\<lparr>prirtyLst := [(0, 11)]\<rparr>"

definition exAfterAdd :: ReadyList where
  "exAfterAdd = exReadyList
     \<lparr>dataDepGraph := exGraph\<lparr>insts := [(exInst 0 2 3)\<lparr>ready := True\<rparr>, exInst 1 3 3, exInst 2 5 0]\<rparr>,
      prirtyLst := [(0, 11)], latestSubLst := [0]\<rparr>"

definition exAfterAdd2 :: ReadyList where
  "exAfterAdd2 = exReadyList
     \<lparr>dataDepGraph := exGraph\<lparr>insts := [(exInst 0 2 3)\<lparr>ready := True\<rparr>, exInst 1 3 3,
                                         (exInst 2 5 0)\<lparr>ready := True\<rparr>]\<rparr>,
      prirtyLst := [(2, 20), (0, 11)], latestSubLst := [0, 2]\<rparr>"

text \<open>
  A stage takes states that satisfy \<open>A\<close> to states that satisfy \<open>B\<close> when it goes on,
  and to a return that satisfies \<open>R\<close> when it returns.
\<close>

definition stageTriple ::
  "(rgn \<Rightarrow> bool) \<Rightarrow> (rgn \<Rightarrow> outcome + rgn) \<Rightarrow> (rgn \<Rightarrow> bool) \<Rightarrow>
   (exit_point \<Rightarrow> FUNC_RESULT \<Rightarrow> rgn \<Rightarrow> bool) \<Rightarrow> bool" where
  "stageTriple A f B R =
     (\<forall>s. A s \<longrightarrow>
        (case f s of
           Inr s1 \<Rightarrow> B s1
         | Inl Crash \<Rightarrow> True
         | Inl (Returned x code s1) \<Rightarrow> R x code s1))"

text \<open> What the gate of the enumeration finds untouched (C10).\<close>

definition untouched :: "caller \<Rightarrow> rgn \<Rightarrow> bool" where
  "untouched c s =
     (ref_bestCost s = c_bestCost c \<and> ref_bestSchedLngth s = c_bestSchedLngth c \<and>
      ref_hurstcCost s = c_hurstcCost c \<and> ref_hurstcSchedLngth s = c_hurstcSchedLngth c \<and>
      verifyCalls s = 0 \<and> finalBounds s = None \<and> deleted s = [] \<and> enumCalls s = 0 \<and>
      ref_bestSched s = bestSched s \<and>
      (lstSched s = None \<or> lstSched s = Some lstSched_obj) \<and>
      (AcoSchedule s = None \<or> AcoSchedule s = Some AcoSchedule_obj) \<and>
      (bestSched s = None \<or> bestSched s = lstSched s \<or> bestSched s = AcoSchedule s))"

definition gateReturn :: "env \<Rightarrow> caller \<Rightarrow> exit_point \<Rightarrow> FUNC_RESULT \<Rightarrow> rgn \<Rightarrow> bool" where
  "gateReturn e c x code s =
     ((x = AtEnableEnum \<longrightarrow> code = RES_FAIL \<and> untouched c s \<and> bestSched s \<noteq> None \<and>
         (bestSched s = lstSched s \<or> bestSched s = AcoSchedule s)) \<and>
      (x = AtDiscard \<or> x = AtEnd \<longrightarrow> EnableEnum e))"

text \<open>
  The notions of C1: a pass that produced a schedule of cost 0, the schedule being
  recorded as the best one, and the same noted as the initial schedule of the search.
\<close>

definition heurZero :: "rgn \<Rightarrow> bool" where
  "heurZero s = (lstSched s \<noteq> None \<and> hurstcCost s = 0)"

definition acoZero :: "rgn \<Rightarrow> bool" where
  "acoZero s = (AcoSchedule s \<noteq> None \<and> AcoScheduleCost s = 0)"

definition settled :: "env \<Rightarrow> sched \<Rightarrow> rgn \<Rightarrow> bool" where
  "settled e b s =
     (isLstOptml s \<and> bestSched s = Some b \<and> bestSchedLngth s = GetCrntLngth e b \<and> bestCost s = 0)"

definition noted :: "env \<Rightarrow> sched \<Rightarrow> rgn \<Rightarrow> bool" where
  "noted e b s = (InitialScheduleCost s = 0 \<and> InitialScheduleLength s = GetCrntLngth e b)"

definition zeroA :: "rgn \<Rightarrow> bool" where
  "zeroA s = (lstSched s = None \<and> AcoSchedule s = None \<and> enumCalls s = 0)"

definition zeroB :: "env \<Rightarrow> rgn \<Rightarrow> bool" where
  "zeroB e s = (AcoSchedule s = None \<and> enumCalls s = 0 \<and> (heurZero s \<longrightarrow> settled e lstSched_obj s))"

definition zeroC :: "env \<Rightarrow> rgn \<Rightarrow> bool" where
  "zeroC e s = (enumCalls s = 0 \<and> (heurZero s \<longrightarrow> settled e lstSched_obj s) \<and>
                (acoZero s \<longrightarrow> settled e AcoSchedule_obj s))"

definition zeroD :: "env \<Rightarrow> rgn \<Rightarrow> bool" where
  "zeroD e s = (enumCalls s = 0 \<and>
                (heurZero s \<longrightarrow> settled e lstSched_obj s \<and> noted e lstSched_obj s) \<and>
                (acoZero s \<longrightarrow> settled e AcoSchedule_obj s \<and> noted e AcoSchedule_obj s))"

definition zeroE :: "env \<Rightarrow> rgn \<Rightarrow> bool" where
  "zeroE e s = ((heurZero s \<longrightarrow> settled e lstSched_obj s \<and> noted e lstSched_obj s \<and> enumCalls s = 0) \<and>
                (acoZero s \<longrightarrow> settled e AcoSchedule_obj s \<and> noted e AcoSchedule_obj s \<and> enumCalls s = 0))"

definition zeroReturn :: "env \<Rightarrow> exit_point \<Rightarrow> FUNC_RESULT \<Rightarrow> rgn \<Rightarrow> bool" where
  "zeroReturn e x code s =
     ((heurZero s \<longrightarrow> settled e lstSched_obj s \<and> enumCalls s = 0) \<and>
      (acoZero s \<and> x \<noteq> AtAco \<longrightarrow> settled e AcoSchedule_obj s \<and> enumCalls s = 0))"

text \<open>
  What the producing passes leave behind (C2): a schedule that exists is the one its pass
  produced, with the cost and length noted in the locals; and the ant colony schedule
  exists exactly when its pass ran.
\<close>

definition produced :: "env \<Rightarrow> rgn \<Rightarrow> bool" where
  "produced e s =
     ((lstSched s = None \<or>
       (lstSched s = Some lstSched_obj \<and> hurstcCost s = lst_Cost e \<and>
        heuristicScheduleLength s = lst_CrntLngth e)) \<and>
      (AcoSchedule s = None \<or>
       (AcoSchedule s = Some AcoSchedule_obj \<and> AcoScheduleCost s = aco_Cost e \<and>
        AcoScheduleLength s = aco_CrntLngth e)))"

definition beforeAco :: "env \<Rightarrow> rgn \<Rightarrow> bool" where
  "beforeAco e s = (produced e s \<and> AcoSchedule s = None)"

definition acoRan :: "env \<Rightarrow> rgn \<Rightarrow> bool" where
  "acoRan e s =
     (produced e s \<and> (AcoSchedule s \<noteq> None \<longrightarrow> AcoBeforeEnum s) \<and>
      (AcoBeforeEnum s \<and> \<not> isLstOptml s \<longrightarrow> AcoSchedule s \<noteq> None))"

text \<open>
  Which producing pass ran (C2): before the heuristic pass no schedule exists; after it
  the list schedule exists exactly when the pass ran, that is when the heuristic is
  enabled or the region is in its second pass; the ant colony pass keeps that.
\<close>

definition noPass :: "env \<Rightarrow> rgn \<Rightarrow> bool" where
  "noPass e s = (beforeAco e s \<and> lstSched s = None)"

definition heurRan :: "env \<Rightarrow> rgn \<Rightarrow> bool" where
  "heurRan e s = (beforeAco e s \<and> (lstSched s = None) = (\<not> (HEUR_ENABLED e \<or> isSecondPass e)))"

definition passesRan :: "env \<Rightarrow> rgn \<Rightarrow> bool" where
  "passesRan e s = (acoRan e s \<and> (lstSched s = None) = (\<not> (HEUR_ENABLED e \<or> isSecondPass e)))"

definition anyReturn :: "exit_point \<Rightarrow> FUNC_RESULT \<Rightarrow> rgn \<Rightarrow> bool" where
  "anyReturn x code s = True"

text \<open> The result code before the final bounds (C8), and the exits before them.\<close>

definition notSearched :: "rgn \<Rightarrow> bool" where
  "notSearched s = (enumCalls s = 0 \<and> rslt s = RES_SUCCESS)"

definition searchCode :: "env \<Rightarrow> rgn \<Rightarrow> bool" where
  "searchCode e s = (rslt s = (if enumCalls s = 0 then RES_SUCCESS else enum_rslt e))"

definition earlyReturn :: "exit_point \<Rightarrow> FUNC_RESULT \<Rightarrow> rgn \<Rightarrow> bool" where
  "earlyReturn x code s = (x \<noteq> AtEnd \<and> x \<noteq> AtDiscard)"

text \<open> Reading a field of the state a run stops in.\<close>

definition observe :: "(rgn \<Rightarrow> 'a) \<Rightarrow> outcome + rgn \<Rightarrow> 'a option" where
  "observe f r = (case r of Inl out \<Rightarrow> None | Inr s \<Rightarrow> Some (f s))"

definition observeReturn :: "(rgn \<Rightarrow> 'a) \<Rightarrow> outcome \<Rightarrow> 'a option" where
  "observeReturn f out = (case out of Crash \<Rightarrow> None | Returned x code s \<Rightarrow> Some (f s))"

text \<open> What the stages after the final bounds keep of the state \<open>s0\<close> before them.\<close>

definition bounded :: "env \<Rightarrow> rgn \<Rightarrow> rgn \<Rightarrow> bool" where
  "bounded e s0 s =
     (finalBounds s =
        Some (if rslt s0 = RES_SUCCESS then costLwrBound s0 + bestCost s0 else costLwrBound s0,
              costLwrBound s0 + bestCost s0) \<and>
      rslt s = rslt s0 \<and> enumCalls s = enumCalls s0 \<and> costLwrBound s = costLwrBound s0 \<and>
      (ChkSchedule e \<longrightarrow> bestCost s = bestCost s0))"

definition boundedOut :: "env \<Rightarrow> rgn \<Rightarrow> rgn \<Rightarrow> bool" where
  "boundedOut e s0 s = (bounded e s0 s \<and> (ChkSchedule e \<longrightarrow> ref_bestCost s = bestCost s0))"

definition boundedReturn :: "env \<Rightarrow> rgn \<Rightarrow> exit_point \<Rightarrow> FUNC_RESULT \<Rightarrow> rgn \<Rightarrow> bool" where
  "boundedReturn e s0 x code s = (boundedOut e s0 s \<and> code = rslt s0)"

text \<open>
  Inputs for the concrete runs: a region of 20 instructions with the heuristic pass alone
  enabled, whose list schedule has length 5 and cost 5 above a cost lower bound of 10;
  the variants below switch single inputs.
\<close>

definition exEnv :: env where
  "exEnv =
     \<lparr>rgnTimeout = 1000, filterByPerp = False, blocksToKeep = KEEP_ALL,
      HEUR_ENABLED = True, ACO_ENABLED = False, ACO_BEFORE_ENUM = False, ACO_AFTER_ENUM = False,
      ENUM_ENABLED = False, SIMULATE_REGISTER_ALLOCATION = ''NO'', INVALID_VALUE = - 1,
      isSecondPass = False, vrfySched = False, spillCostFunc = SCF_other,
      entry_hurstcCost = - 1, entry_bestCost = - 1, entry_bestSchedLngth = - 1,
      entry_costLwrBound = 0, entry_schedUprBound = - 1,
      graphInstCnt = 20, SetupForSchdulng_rslt = RES_SUCCESS, GraphTransformations = [],
      GetSchedLwrBound = 3, CmputCostLwrBound = (\<lambda>l. 10), frwrdLwrBound = 3, bkwrdLwrBound = 3,
      lst_rslt = RES_SUCCESS, lst_CrntLngth = 5, lst_Cost = 5, lst_PeakRegPressures = [],
      GetPhysRegCnt = (\<lambda>i. 0),
      aco_rslt = RES_SUCCESS, aco_CrntLngth = 6, aco_Cost = 7,
      CmputSchedUprBound = 9, EnableEnum = True,
      enum_rslt = RES_TIMEOUT, enum_bestCost = 5, enum_bestSchedLngth = 5,
      regAllocList_Cost = 0, regAllocBest_Cost = 0,
      acoAfter_rslt = RES_SUCCESS, acoAfter_Cost = 9, acoAfter_CrntLngth = 9,
      Verify = True, ChkSchedule = True\<rparr>"

definition exCaller :: caller where
  "exCaller = \<lparr>c_isLstOptml = False, c_bestCost = 100, c_bestSchedLngth = 200,
     c_hurstcCost = 300, c_hurstcSchedLngth = 400\<rparr>"

definition exSearchEnv :: env where
  "exSearchEnv = exEnv\<lparr>ENUM_ENABLED := True\<rparr>"

definition exZeroEnv :: env where
  "exZeroEnv = exEnv\<lparr>ENUM_ENABLED := True, lst_Cost := 0\<rparr>"

definition exAcoZeroEnv :: env where
  "exAcoZeroEnv = exEnv\<lparr>ENUM_ENABLED := True, ACO_ENABLED := True, ACO_BEFORE_ENUM := True, aco_Cost := 0\<rparr>"

definition exAcoOnlyEnv :: env where
  "exAcoOnlyEnv = exEnv\<lparr>HEUR_ENABLED := False, ACO_ENABLED := True, ACO_BEFORE_ENUM := True\<rparr>"

definition exBothEnv :: env where
  "exBothEnv = exEnv\<lparr>ACO_ENABLED := True, ACO_BEFORE_ENUM := True, lst_Cost := 10\<rparr>"

definition exTieEnv :: env where
  "exTieEnv = exEnv\<lparr>ACO_ENABLED := True, ACO_BEFORE_ENUM := True, lst_Cost := 7\<rparr>"

definition exGateEnv :: env where
  "exGateEnv = exEnv\<lparr>EnableEnum := False\<rparr>"

text \<open>
  The notions of C6. The instruction as it was when its key was last computed: the live
  last use count is the stored one. The stored keys of a ready list are current when
  every entry carries the key that \<open>CmputKey_\<close> computes for its instruction in that
  state. The recomputed key of an instruction is the key \<open>CmputKey_\<close> computes for it
  now, and its key changed when that differs from the key of its entry.
\<close>

definition cachedInst :: "SchedInstruction \<Rightarrow> SchedInstruction" where
  "cachedInst inst = inst\<lparr>liveLastUseCnt := lastUseCnt inst\<rparr>"

definition keysCurrent :: "ReadyList \<Rightarrow> bool" where
  "keysCurrent rl =
     list_all (\<lambda>(n, k). n < length (insts (dataDepGraph rl)) \<and>
        (case CmputKey rl (cachedInst (insts (dataDepGraph rl) ! n)) False of
           Inl e \<Rightarrow> False
         | Inr (key, c, i) \<Rightarrow> key = k)) (prirtyLst rl)"

definition recomputedKey :: "ReadyList \<Rightarrow> nat \<Rightarrow> ulong option" where
  "recomputedKey rl n =
     (case CmputKey rl (insts (dataDepGraph rl) ! n) True of
        Inl e \<Rightarrow> None
      | Inr (key, c, i) \<Rightarrow> Some key)"

definition keyChanged :: "ReadyList \<Rightarrow> nat \<Rightarrow> bool" where
  "keyChanged rl n = (recomputedKey rl n \<noteq> map_of (prirtyLst rl) n)"

definition byPriority :: "(nat \<times> ulong) list \<Rightarrow> bool" where
  "byPriority xs = sorted_wrt (\<lambda>a b. snd b \<le> snd a) xs"

text \<open> The loop of \<open>UpdatePriorities\<close> as a fold over the container.\<close>

definition boostStep :: "(nat \<Rightarrow> bool) \<Rightarrow> (nat \<Rightarrow> ulong) \<Rightarrow> nat \<Rightarrow> (nat \<times> ulong) list \<Rightarrow> (nat \<times> ulong) list" where
  "boostStep ch nk n xs = (if ch n then BoostElmnt n (nk n) xs else xs)"

definition sameConfig :: "ReadyList \<Rightarrow> ReadyList \<Rightarrow> bool" where
  "sameConfig rl rl' =
     (prirts rl' = prirts rl \<and> useCntBits rl' = useCntBits rl \<and> crtclPathBits rl' = crtclPathBits rl \<and>
      scsrCntBits rl' = scsrCntBits rl \<and> ltncySumBits rl' = ltncySumBits rl \<and>
      nodeID_Bits rl' = nodeID_Bits rl \<and> inptSchedOrderBits rl' = inptSchedOrderBits rl \<and>
      maxUseCnt rl' = maxUseCnt rl \<and> maxCrtclPath rl' = maxCrtclPath rl \<and>
      maxScsrCnt rl' = maxScsrCnt rl \<and> maxLtncySum rl' = maxLtncySum rl \<and>
      maxNodeID rl' = maxNodeID rl \<and> maxInptSchedOrder rl' = maxInptSchedOrder rl)"

text \<open>
  What the loop of \<open>UpdatePriorities\<close> finds for a queued instruction: whether the
  recomputation reports a change (the \<^verbatim>\<open>instChanged\<close> of the source: a last use count is
  configured and the recomputed count differs from the stored one), and the recomputed key.
\<close>

definition lastUseChanged :: "ReadyList \<Rightarrow> nat \<Rightarrow> bool" where
  "lastUseChanged rl n = lucChanged (configured (prirts rl)) (insts (dataDepGraph rl) ! n)"

definition newKey :: "ReadyList \<Rightarrow> nat \<Rightarrow> ulong" where
  "newKey rl n = (case recomputedKey rl n of Some k \<Rightarrow> k | None \<Rightarrow> 0)"

text \<open>
  A ready list under a dynamic scheme: the last use count is the first criterion (2 bits),
  the critical path the second (3 bits). Instruction 0 was queued with last use count 1
  and has last use count 2 now; instruction 1 is as it was queued.
\<close>

definition exDynPrirts :: SchedPriorities where
  "exDynPrirts = \<lparr>cnt = 2, vctr = [LSH_LUC, LSH_CP], isDynmc = True\<rparr>"

definition exDynInst :: "nat \<Rightarrow> int \<Rightarrow> int16 \<Rightarrow> int16 \<Rightarrow> SchedInstruction" where
  "exDynInst n cp lst live = (exInst n cp 3)\<lparr>lastUseCnt := lst, liveLastUseCnt := live\<rparr>"

definition exDynList :: ReadyList where
  "exDynList = exReadyList
     \<lparr>dataDepGraph := exGraph\<lparr>insts := [exDynInst 0 2 1 2, exDynInst 1 3 1 1, exInst 2 5 0]\<rparr>,
      prirts := exDynPrirts, prirtyLst := [(1, 11), (0, 10)]\<rparr>"

definition exDynAfter :: ReadyList where
  "exDynAfter = exReadyList
     \<lparr>dataDepGraph := exGraph\<lparr>insts := [exDynInst 0 2 2 2, exDynInst 1 3 1 1, exInst 2 5 0]\<rparr>,
      prirts := exDynPrirts, prirtyLst := [(0, 18), (1, 11)]\<rparr>"

text \<open>
  The same ready list with instruction 0 queued twice: empty at first, after one and after
  two calls of \<open>AddInst\<close> for instruction 0 at last use count 1, then with the last use
  count of instruction 0 at 2, and after \<open>UpdatePriorities\<close>.
\<close>

definition exDupStart :: ReadyList where
  "exDupStart = exReadyList
     \<lparr>dataDepGraph := exGraph\<lparr>insts := [exDynInst 0 2 1 1, exDynInst 1 3 1 1, exInst 2 5 0]\<rparr>,
      prirts := exDynPrirts, prirtyLst := []\<rparr>"

definition exDupOnce :: ReadyList where
  "exDupOnce = exDupStart\<lparr>prirtyLst := [(0, 10)]\<rparr>"

definition exDupTwice :: ReadyList where
  "exDupTwice = exDupStart\<lparr>prirtyLst := [(0, 10), (0, 10)]\<rparr>"

definition exDupList :: ReadyList where
  "exDupList = exDynList\<lparr>prirtyLst := [(0, 10), (0, 10)]\<rparr>"

definition exDupAfter :: ReadyList where
  "exDupAfter = exDynAfter\<lparr>prirtyLst := [(0, 18), (0, 10)]\<rparr>"

section \<open>Properties\<close>

lemma bitsOfNat_zero_iff: "bitsOfNat n = 0 \<longleftrightarrow> n = 0"
  by (subst bitsOfNat.simps) simp

lemma bitsOfNat_gt: "n < 2 ^ bitsOfNat n"
proof (induction n rule: bitsOfNat.induct)
  case (1 n)
  show ?case
  proof (cases "n = 0")
    case True then show ?thesis by simp
  next
    case False
    with 1 have "n div 2 < 2 ^ bitsOfNat (n div 2)" by simp
    then have "n < 2 * 2 ^ bitsOfNat (n div 2)" by linarith
    with False show ?thesis by (subst bitsOfNat.simps) simp
  qed
qed

lemma bitsOfNat_le: "n < 2 ^ k \<Longrightarrow> bitsOfNat n \<le> k"
proof (induction n arbitrary: k rule: bitsOfNat.induct)
  case (1 n)
  show ?case
  proof (cases "n = 0")
    case True then show ?thesis by (subst bitsOfNat.simps) simp
  next
    case False
    with 1(2) obtain j where k: "k = Suc j" by (cases k) auto
    with 1(2) have "n div 2 < 2 ^ j" by auto
    with 1(1) False have "bitsOfNat (n div 2) \<le> j" by simp
    with False k show ?thesis by (subst bitsOfNat.simps) simp
  qed
qed

lemma clclt_le_64: "clcltBitsNeededToHoldNum v \<le> 64"
  unfolding clcltBitsNeededToHoldNum_def
  by (rule bitsOfNat_le) (use unsigned_less [of v, where ?'a = nat] in simp)

lemma clclt_zero_iff: "clcltBitsNeededToHoldNum v = 0 \<longleftrightarrow> v = 0"
  unfolding clcltBitsNeededToHoldNum_def by (simp add: bitsOfNat_zero_iff unat_eq_0)

lemma clclt_gt: "unat v < 2 ^ clcltBitsNeededToHoldNum v"
  unfolding clcltBitsNeededToHoldNum_def by (rule bitsOfNat_gt)

lemma nat_push_and_zero:
  fixes a r :: nat
  assumes "r < 2 ^ S"
  shows "push_bit S a AND r = 0"
proof (rule bit_eqI)
  fix n
  have "take_bit S r = r" using assms by (simp add: take_bit_nat_eq_self)
  then have "bit r n = (n < S \<and> bit r n)" by (metis bit_take_bit_iff)
  then have "bit r n \<Longrightarrow> n < S" by blast
  then show "bit (push_bit S a AND r) n = bit (0::nat) n"
    by (auto simp: bit_simps)
qed

lemma nat_push_or:
  fixes a r :: nat
  assumes "r < 2 ^ S"
  shows "push_bit S a OR r = a * 2 ^ S + r"
  using disjunctive_add_eq_or [OF nat_push_and_zero [OF assms, of a]]
  by (simp add: push_bit_eq_mult)

lemma push_or_unat:
  fixes v R :: ulong
  assumes "unat R < 2 ^ S" "unat v < 2 ^ w" "w + S \<le> 64"
  shows "unat (push_bit S v OR R) = unat v * 2 ^ S + unat R"
proof -
  have "unat v * 2 ^ S < 2 ^ w * 2 ^ S" using assms(2) by simp
  also have "\<dots> = 2 ^ (w + S)" by (simp add: power_add)
  also have "\<dots> \<le> (2::nat) ^ 64" using assms(3) by (intro power_increasing) simp_all
  finally have lt: "unat v * 2 ^ S < 2 ^ 64" .
  have "unat (push_bit S v) = take_bit 64 (push_bit S (unat v))"
    by (simp add: unsigned_push_bit_eq)
  also have "\<dots> = unat v * 2 ^ S"
    using lt by (simp add: take_bit_nat_eq_self push_bit_eq_mult)
  finally have "unat (push_bit S v) = unat v * 2 ^ S" .
  then show ?thesis
    using nat_push_or [OF assms(1), of "unat v"]
    by (simp add: unsigned_or_eq push_bit_eq_mult)
qed

lemma keyFold_layout:
  assumes "ks = 0 \<longrightarrow> k = 0" "fitting fs"
  shows "keyFold fs k ks =
           Inr (push_bit (sum_list (map fst fs)) k OR packFields (map (\<lambda>(b, v, m). (b, v)) fs),
                ks + sum_list (map fst fs))"
  using assms
proof (induction fs arbitrary: k ks)
  case Nil
  then show ?case by simp
next
  case (Cons f fs)
  obtain b v m where f: "f = (b, v, m)" by (cases f) auto
  from Cons.prems f have vm: "v \<le> m" and b0: "b = 0 \<longrightarrow> m = 0" and rest: "fitting fs"
    by (auto simp: fitting_def)
  define k1 where "k1 = (if ks > 0 then push_bit b k else k) OR v"
  have step: "AddPrirtyToKey k ks b v m = Inr (k1, ks + b)"
    using vm by (simp add: AddPrirtyToKey_def k1_def)
  have k1: "k1 = push_bit b k OR v" using Cons.prems(1) by (auto simp: k1_def)
  have inv: "ks + b = 0 \<longrightarrow> k1 = 0"
    using Cons.prems(1) b0 vm by (auto simp: k1_def)
  have mf: "map (fst \<circ> (\<lambda>(b, v, m). (b, v))) fs = map fst fs"
    by (rule map_cong) auto
  have "keyFold (f # fs) k ks = keyFold fs k1 (ks + b)"
    by (simp add: f step)
  also have "\<dots> = Inr (push_bit (sum_list (map fst fs)) k1 OR packFields (map (\<lambda>(b, v, m). (b, v)) fs),
                ks + b + sum_list (map fst fs))"
    by (rule Cons.IH [OF inv rest])
  also have "push_bit (sum_list (map fst fs)) k1 =
      push_bit (sum_list (map fst (f # fs))) k OR push_bit (sum_list (map fst fs)) v"
    by (simp add: k1 f push_bit_add add.commute)
  finally show ?case
    by (simp add: f mf or.assoc add.assoc)
qed

lemma ctorMax_eq:
  "ctorMax rl h k ks =
     AddPrirtyToKey k ks (storedBits rl h) (word_of_int (storedMax rl h)) (word_of_int (storedMax rl h))"
  by (cases h) simp_all

lemma ctorMaxLoop_keyFold:
  "ctorMaxLoop rl hs k ks =
     keyFold (map (\<lambda>h. (storedBits rl h, word_of_int (storedMax rl h), word_of_int (storedMax rl h))) hs) k ks"
  by (induction hs arbitrary: k ks) (auto simp: ctorMax_eq split: sum.splits)

lemma CmputKeyStep_eq:
  "CmputKeyStep rl h (inst, k, ks, c) =
     (case AddPrirtyToKey k ks (storedBits rl h) (fieldVal rl inst h) (word_of_int (storedMax rl h)) of
        Inl e \<Rightarrow> Inl e
      | Inr (k1, ks1) \<Rightarrow> Inr (lucInst [h] inst, k1, ks1, c \<or> lucChanged [h] inst))"
  by (cases h) (auto simp: lucInst_def lucChanged_def CmputLastUseCnt_def split: sum.splits)

lemma fieldVal_lucInst [simp]: "fieldVal rl (lucInst hs inst) h = fieldVal rl inst h"
  by (cases h) (simp_all add: lucInst_def)

lemma instFields_lucInst [simp]: "instFields rl (lucInst hs inst) hs' = instFields rl inst hs'"
  by (simp add: instFields_def)

lemma lucInst_Cons: "lucInst hs (lucInst [h] inst) = lucInst (h # hs) inst"
  by (auto simp: lucInst_def)

lemma lucChanged_Cons: "(lucChanged [h] inst \<or> lucChanged hs (lucInst [h] inst)) = lucChanged (h # hs) inst"
  by (auto simp: lucInst_def lucChanged_def)

lemma CmputKeyLoop_keyFold:
  "CmputKeyLoop rl hs (inst, k, ks, c) =
     (case keyFold (instFields rl inst hs) k ks of
        Inl e \<Rightarrow> Inl e
      | Inr (k1, ks1) \<Rightarrow> Inr (lucInst hs inst, k1, ks1, c \<or> lucChanged hs inst))"
proof (induction hs arbitrary: inst k ks c)
  case Nil
  then show ?case by (simp add: instFields_def lucInst_def lucChanged_def)
next
  case (Cons h hs)
  show ?case
  proof (cases "AddPrirtyToKey k ks (storedBits rl h) (fieldVal rl inst h) (word_of_int (storedMax rl h))")
    case (Inl e)
    then show ?thesis by (simp add: CmputKeyStep_eq instFields_def)
  next
    case (Inr r)
    obtain k1 ks1 where r: "r = (k1, ks1)" by (cases r) auto
    have "CmputKeyLoop rl (h # hs) (inst, k, ks, c) =
            CmputKeyLoop rl hs (lucInst [h] inst, k1, ks1, c \<or> lucChanged [h] inst)"
      using Inr r by (simp add: CmputKeyStep_eq)
    also have "\<dots> = (case keyFold (instFields rl inst hs) k1 ks1 of
        Inl e \<Rightarrow> Inl e
      | Inr (k2, ks2) \<Rightarrow> Inr (lucInst (h # hs) inst, k2, ks2, c \<or> lucChanged (h # hs) inst))"
      by (simp add: Cons.IH lucInst_Cons lucChanged_Cons split: sum.splits)
    also have "keyFold (instFields rl inst hs) k1 ks1 = keyFold (instFields rl inst (h # hs)) k ks"
      using Inr r by (simp add: instFields_def)
    finally show ?thesis .
  qed
qed

lemma ctorBits_sets:
  "ctorBits g h (rl, t) = (rl', t') \<Longrightarrow>
     laidOut g rl' h \<and> t' = (t + fieldWidth g h) mod 65536 \<and> sameLists rl rl'"
  by (cases h) (auto simp: laidOut_def fieldWidth_def fieldMax_def sameLists_def Let_def)

lemma ctorBits_keeps:
  "ctorBits g h (rl, t) = (rl', t') \<Longrightarrow> laidOut g rl h' \<Longrightarrow> laidOut g rl' h'"
  by (cases h; cases h') (auto simp: laidOut_def fieldWidth_def fieldMax_def Let_def)

lemma ctorBitsLoop_result:
  "ctorBitsLoop g hs (rl, t) = (rl', t') \<Longrightarrow> t < 65536 \<Longrightarrow>
     (\<forall>h \<in> set hs. laidOut g rl' h) \<and> t' = (t + sum_list (map (fieldWidth g) hs)) mod 65536 \<and>
     sameLists rl rl' \<and> (\<forall>h. laidOut g rl h \<longrightarrow> laidOut g rl' h)"
proof (induction hs arbitrary: rl t)
  case Nil
  then show ?case by (simp add: sameLists_def)
next
  case (Cons h hs)
  obtain rl1 t1 where s1: "ctorBits g h (rl, t) = (rl1, t1)" by (cases "ctorBits g h (rl, t)") auto
  from Cons.prems s1 have loop: "ctorBitsLoop g hs (rl1, t1) = (rl', t')" by simp
  note a = ctorBits_sets [OF s1]
  then have "t1 < 65536" by simp
  note b = Cons.IH [OF loop this]
  have "t' = (t + sum_list (map (fieldWidth g) (h # hs))) mod 65536"
    using a b by (simp add: mod_add_left_eq add.assoc)
  moreover have "\<forall>x \<in> set (h # hs). laidOut g rl' x" using a b by auto
  moreover have "sameLists rl rl'" using a b by (simp add: sameLists_def)
  moreover have "\<forall>x. laidOut g rl x \<longrightarrow> laidOut g rl' x"
    using b ctorBits_keeps [OF s1] by blast
  ultimately show ?case by blast
qed

lemma fieldWidth_le_64: "fieldWidth g h \<le> 64"
  by (simp add: fieldWidth_def clclt_le_64)

lemma sum_fieldWidth_le: "sum_list (map (fieldWidth g) hs) \<le> 64 * length hs"
  by (induction hs) (use fieldWidth_le_64 in \<open>auto simp: add_le_mono\<close>)

lemma maxFields_fitting:
  assumes "\<forall>h \<in> set hs. laidOut g rl h"
  shows "fitting (map (\<lambda>h. (storedBits rl h, word_of_int (storedMax rl h), word_of_int (storedMax rl h))) hs)"
  using assms
  by (auto simp: fitting_def list_all_iff laidOut_def fieldWidth_def fieldMax_def clclt_zero_iff)

lemma maxFields_pack:
  assumes "\<forall>h \<in> set hs. laidOut g rl h"
  shows "map (\<lambda>(b, v, m). (b, v)) (map (\<lambda>h. (storedBits rl h, word_of_int (storedMax rl h), word_of_int (storedMax rl h))) hs)
         = map (\<lambda>h. (fieldWidth g h, fieldMax g h)) hs"
  using assms by (auto simp: laidOut_def fieldMax_def)

lemma maxFields_widths:
  assumes "\<forall>h \<in> set hs. laidOut g rl h"
  shows "map fst (map (\<lambda>h. (storedBits rl h, word_of_int (storedMax rl h), word_of_int (storedMax rl h))) hs)
         = map (fieldWidth g) hs"
  using assms by (auto simp: laidOut_def)

lemma packFields_bound:
  assumes "narrow fs" "sum_list (map fst fs) \<le> 64"
  shows "unat (packFields fs) < 2 ^ sum_list (map fst fs)"
  using assms
proof (induction fs)
  case Nil
  then show ?case by simp
next
  case (Cons f fs)
  obtain b v where f: "f = (b, v)" by (cases f) auto
  let ?S = "sum_list (map fst fs)"
  from Cons.prems f have v: "unat v < 2 ^ b" and n: "narrow fs" and s: "b + ?S \<le> 64"
    by (auto simp: narrow_def)
  from Cons.IH n s have R: "unat (packFields fs) < 2 ^ ?S" by simp
  have eq: "unat (packFields (f # fs)) = unat v * 2 ^ ?S + unat (packFields fs)"
    unfolding f using push_or_unat [OF R v s] by simp
  have "unat v + 1 \<le> 2 ^ b" using v by simp
  then have "(unat v + 1) * 2 ^ ?S \<le> 2 ^ b * 2 ^ ?S" by (rule mult_le_mono1)
  then have "unat v * 2 ^ ?S + 2 ^ ?S \<le> 2 ^ (b + ?S)" by (simp add: power_add algebra_simps)
  with R eq show ?case by (simp add: f)
qed

lemma packFields_head_mono:
  assumes "narrow ((b, v2) # fs)" "b + sum_list (map fst fs) \<le> 64" "v1 < v2"
  shows "packFields ((b, v1) # fs) < packFields ((b, v2) # fs)"
proof -
  let ?S = "sum_list (map fst fs)"
  from assms(1) have v2: "unat v2 < 2 ^ b" and n: "narrow fs" by (auto simp: narrow_def)
  from assms(3) have lt: "unat v1 < unat v2" by (simp add: word_less_nat_alt)
  with v2 have v1: "unat v1 < 2 ^ b" by simp
  from assms(2) have "?S \<le> 64" by simp
  with n have R: "unat (packFields fs) < 2 ^ ?S" by (rule packFields_bound)
  have e1: "unat (packFields ((b, v1) # fs)) = unat v1 * 2 ^ ?S + unat (packFields fs)"
    using push_or_unat [OF R v1 assms(2)] by simp
  have e2: "unat (packFields ((b, v2) # fs)) = unat v2 * 2 ^ ?S + unat (packFields fs)"
    using push_or_unat [OF R v2 assms(2)] by simp
  from lt have "unat v1 * 2 ^ ?S < unat v2 * 2 ^ ?S" by simp
  with e1 e2 show ?thesis by (simp add: word_less_nat_alt)
qed

lemma keyFold_Inr_le:
  "keyFold fs k ks = Inr r \<Longrightarrow> list_all (\<lambda>(b, v, m). v \<le> m) fs"
proof (induction fs arbitrary: k ks)
  case Nil
  then show ?case by simp
next
  case (Cons f fs)
  obtain b v m where f: "f = (b, v, m)" by (cases f) auto
  from Cons.prems f have vm: "v \<le> m"
    by (auto simp: AddPrirtyToKey_def split: if_splits)
  with Cons.prems f Cons.IH show ?case
    by (auto simp: AddPrirtyToKey_def Let_def split: if_splits)
qed

lemma ReadyList_new_laidOut:
  assumes "ReadyList_new g p = Inr rl" "cnt p < 1024"
  shows "(\<forall>h \<in> set (configured p). laidOut g rl h) \<and> prirts rl = p \<and> cnt p \<le> length (vctr p) \<and>
         sum_list (map (fieldWidth g) (configured p)) \<le> 64 \<and> dataDepGraph rl = g \<and>
         prirtyLst rl = [] \<and> latestSubLst rl = []"
proof -
  let ?hs = "configured p"
  from assms(1) have c: "cnt p \<le> length (vctr p)"
    by (auto simp: ReadyList_new_def split: if_splits)
  obtain rl0 t where loop: "ctorBitsLoop g ?hs (emptyReadyList g p, 0) = (rl0, t)"
    by (cases "ctorBitsLoop g ?hs (emptyReadyList g p, 0)") auto
  from assms(1) c loop obtain k where t64: "t \<le> 64" and rl: "rl = rl0\<lparr>maxPriority := k\<rparr>"
    by (auto simp: ReadyList_new_def configured_def split: if_splits sum.splits)
  have r: "(\<forall>h \<in> set ?hs. laidOut g rl0 h) \<and> t = (0 + sum_list (map (fieldWidth g) ?hs)) mod 65536
           \<and> sameLists (emptyReadyList g p) rl0"
    using ctorBitsLoop_result [OF loop] by simp
  have len: "length ?hs = cnt p" using c by (simp add: configured_def)
  have "sum_list (map (fieldWidth g) ?hs) \<le> 64 * cnt p"
    using sum_fieldWidth_le [of g ?hs] len by simp
  with assms(2) have "sum_list (map (fieldWidth g) ?hs) < 65536" by simp
  with r t64 have s: "sum_list (map (fieldWidth g) ?hs) \<le> 64" by simp
  have lo: "\<forall>h \<in> set ?hs. laidOut g rl h"
  proof
    fix h assume "h \<in> set ?hs"
    with r have "laidOut g rl0 h" by blast
    then show "laidOut g rl h" unfolding rl by (cases h) (simp_all add: laidOut_def)
  qed
  from r have "sameLists (emptyReadyList g p) rl" unfolding rl by (simp add: sameLists_def)
  then show ?thesis using lo c s by (simp add: sameLists_def emptyReadyList_def)
qed

lemma ReadyList_new_wellConfigured:
  "ReadyList_new g p = Inr rl \<Longrightarrow> cnt p < 1024 \<Longrightarrow> wellConfigured g rl"
  using ReadyList_new_laidOut [of g p rl] by (simp add: wellConfigured_def list_all_iff)

lemma CmputKey_packed:
  assumes wc: "wellConfigured g rl"
      and ck: "CmputKey rl inst upd = Inr (key, c, inst')"
  shows "key = packFields (map (\<lambda>h. (fieldWidth g h, fieldVal rl inst h)) (configured (prirts rl)))"
    and "narrow (map (\<lambda>h. (fieldWidth g h, fieldVal rl inst h)) (configured (prirts rl)))"
    and "c = (\<not> upd \<or> lucChanged (configured (prirts rl)) inst)"
    and "inst' = lucInst (configured (prirts rl)) inst"
proof -
  let ?hs = "configured (prirts rl)"
  let ?F = "instFields rl inst ?hs"
  from wc have lo: "\<forall>h \<in> set ?hs. laidOut g rl h" and c: "cnt (prirts rl) \<le> length (vctr (prirts rl))"
    by (auto simp: wellConfigured_def list_all_iff)
  from ck c obtain ks where kf: "keyFold ?F 0 0 = Inr (key, ks)"
    and c': "c = (\<not> upd \<or> lucChanged ?hs inst)" and i': "inst' = lucInst ?hs inst"
    by (auto simp: CmputKey_def CmputKeyLoop_keyFold configured_def split: sum.splits if_splits)
  from keyFold_Inr_le [OF kf] have le: "\<forall>h \<in> set ?hs. fieldVal rl inst h \<le> fieldMax g h"
    using lo by (auto simp: instFields_def list_all_iff laidOut_def fieldMax_def)
  have fit: "fitting ?F"
    using le lo by (auto simp: fitting_def instFields_def list_all_iff laidOut_def fieldWidth_def fieldMax_def clclt_zero_iff)
  have m1: "map (\<lambda>(b, v, m). (b, v)) ?F = map (\<lambda>h. (fieldWidth g h, fieldVal rl inst h)) ?hs"
    using lo by (auto simp: instFields_def laidOut_def)
  have "keyFold ?F 0 0 = Inr (push_bit (sum_list (map fst ?F)) 0 OR packFields (map (\<lambda>(b, v, m). (b, v)) ?F),
            0 + sum_list (map fst ?F))"
    by (rule keyFold_layout) (simp, rule fit)
  with kf have "key = packFields (map (\<lambda>(b, v, m). (b, v)) ?F)" by simp
  then show "key = packFields (map (\<lambda>h. (fieldWidth g h, fieldVal rl inst h)) ?hs)"
    by (simp only: m1)
  show "narrow (map (\<lambda>h. (fieldWidth g h, fieldVal rl inst h)) ?hs)"
    unfolding narrow_def list_all_iff
  proof clarsimp
    fix h assume h: "h \<in> set ?hs"
    with le have "unat (fieldVal rl inst h) \<le> unat (fieldMax g h)" by (simp add: word_le_nat_alt)
    also have "\<dots> < 2 ^ fieldWidth g h" unfolding fieldWidth_def by (rule clclt_gt)
    finally show "unat (fieldVal rl inst h) < 2 ^ fieldWidth g h" .
  qed
  show "c = (\<not> upd \<or> lucChanged ?hs inst)" by (rule c')
  show "inst' = lucInst ?hs inst" by (rule i')
qed

lemma CmputKey_result:
  assumes "CmputKey rl inst upd = Inr (key, c, inst1)"
  shows "inst1 = lucInst (configured (prirts rl)) inst"
    and "c = (\<not> upd \<or> lucChanged (configured (prirts rl)) inst)"
  using assms
  by (auto simp: CmputKey_def CmputKeyLoop_keyFold configured_def split: sum.splits if_splits)

lemma ready_lucInst [simp]: "ready (lucInst hs inst) = ready inst"
  by (simp add: lucInst_def)

lemma num_lucInst [simp]: "num (lucInst hs inst) = num inst"
  by (simp add: lucInst_def)

lemma readyFlags_putInst:
  "readyFlags (putInst rl i inst) = (readyFlags rl)[i := ready inst]"
  by (simp add: readyFlags_def putInst_def map_update)

lemma length_readyFlags [simp]: "length (readyFlags rl) = length (insts (dataDepGraph rl))"
  by (simp add: readyFlags_def)

lemma readyFlags_nth: "i < length (insts (dataDepGraph rl)) \<Longrightarrow> readyFlags rl ! i = ready (insts (dataDepGraph rl) ! i)"
  by (simp add: readyFlags_def)

lemma AddInst_result:
  assumes "AddInst rl i = Inr rl'"
  shows "i < length (insts (dataDepGraph rl))"
    and "readyFlags rl' = readyFlags rl"
    and "latestSubLst rl' = latestSubLst rl"
    and "prirts rl' = prirts rl"
    and "\<exists>key c inst1. CmputKey rl (insts (dataDepGraph rl) ! i) False = Inr (key, c, inst1) \<and>
           prirtyLst rl' = InsrtElmnt (num (insts (dataDepGraph rl) ! i)) key (prirtyLst rl) \<and>
           dataDepGraph rl' = (dataDepGraph rl)\<lparr>insts := (insts (dataDepGraph rl))[i := inst1]\<rparr>"
proof -
  from assms show i: "i < length (insts (dataDepGraph rl))"
    by (auto simp: AddInst_def GetInstByIndx_def split: if_splits)
  let ?inst = "insts (dataDepGraph rl) ! i"
  from assms i obtain key c inst1 where ck: "CmputKey rl ?inst False = Inr (key, c, inst1)"
    and rl': "rl' = (putInst rl i inst1)\<lparr>prirtyLst := InsrtElmnt (num inst1) key (prirtyLst rl)\<rparr>"
    by (auto simp: AddInst_def GetInstByIndx_def split: if_splits sum.splits)
  note r = CmputKey_result [OF ck]
  have "readyFlags rl' = (readyFlags rl)[i := ready ?inst]"
    unfolding rl' using r(1) by (simp add: readyFlags_def putInst_def map_update)
  also have "\<dots> = readyFlags rl" using i by (simp add: readyFlags_def list_update_same_conv)
  finally show "readyFlags rl' = readyFlags rl" .
  show "latestSubLst rl' = latestSubLst rl" unfolding rl' by (simp add: putInst_def)
  show "prirts rl' = prirts rl" unfolding rl' by (simp add: putInst_def)
  show "\<exists>key c inst1. CmputKey rl ?inst False = Inr (key, c, inst1) \<and>
           prirtyLst rl' = InsrtElmnt (num ?inst) key (prirtyLst rl) \<and>
           dataDepGraph rl' = (dataDepGraph rl)\<lparr>insts := (insts (dataDepGraph rl))[i := inst1]\<rparr>"
    using ck r(1) unfolding rl' by (auto simp: putInst_def)
qed

lemma set_InsrtElmnt [simp]: "set (InsrtElmnt e k xs) = insert (e, k) (set xs)"
  by (induction xs) (auto split: if_splits)

lemma length_InsrtElmnt [simp]: "length (InsrtElmnt e k xs) = Suc (length xs)"
  by (induction xs) auto

lemma markAll_simps [simp]:
  "markAll b [] q = q"
  "markAll b (i # is) q = markAll b is (q[i := b])"
  by (simp_all add: markAll_def)

lemma markAll_append [simp]: "markAll b (xs @ ys) q = markAll b ys (markAll b xs q)"
  by (simp add: markAll_def)

lemma length_markAll [simp]: "length (markAll b is q) = length q"
  by (induction "is" arbitrary: q) auto

lemma AddLatestSubListLoop_result:
  assumes "AddLatestSubListLoop xs rl = Inr rl'"
  shows "latestSubLst rl' = latestSubLst rl @ scanned (readyFlags rl) xs \<and>
         readyFlags rl' = markAll True (scanned (readyFlags rl) xs) (readyFlags rl) \<and>
         (\<forall>i \<in> set (scanned (readyFlags rl) xs). i < length (readyFlags rl)) \<and>
         prirts rl' = prirts rl \<and>
         length (prirtyLst rl') = length (prirtyLst rl) + length (scanned (readyFlags rl) xs) \<and>
         set (map fst (prirtyLst rl')) =
           set (map fst (prirtyLst rl)) \<union> (\<lambda>i. num (insts (dataDepGraph rl) ! i)) ` set (scanned (readyFlags rl) xs)"
  using assms
proof (induction xs arbitrary: rl)
  case Nil
  then show ?case by simp
next
  case (Cons x xs)
  from Cons.prems have x: "x < length (insts (dataDepGraph rl))"
    by (auto simp: GetInstByIndx_def split: if_splits)
  show ?case
  proof (cases "ready (insts (dataDepGraph rl) ! x)")
    case True
    with Cons.prems x show ?thesis
      by (simp add: GetInstByIndx_def IsInReadyList_def readyFlags_nth)
  next
    case False
    with Cons.prems x obtain rl1 where a: "AddInst rl x = Inr rl1"
      by (auto simp: GetInstByIndx_def IsInReadyList_def split: sum.splits)
    define rl2 where "rl2 = (putInst rl1 x (PutInReadyList (insts (dataDepGraph rl1) ! x)))
                              \<lparr>latestSubLst := latestSubLst rl1 @ [x]\<rparr>"
    from Cons.prems x False a have loop: "AddLatestSubListLoop xs rl2 = Inr rl'"
      by (simp add: GetInstByIndx_def IsInReadyList_def rl2_def)
    note r = AddInst_result [OF a]
    have f2: "readyFlags rl2 = (readyFlags rl)[x := True]"
      unfolding rl2_def using r(2)
      by (simp add: readyFlags_def putInst_def map_update PutInReadyList_def)
    have l2: "latestSubLst rl2 = latestSubLst rl @ [x]"
      unfolding rl2_def using r(3) by (simp add: putInst_def)
    have p2: "prirts rl2 = prirts rl" unfolding rl2_def using r(4) by (simp add: putInst_def)
    from r(5) obtain key c inst1 where
      pl: "prirtyLst rl1 = InsrtElmnt (num (insts (dataDepGraph rl) ! x)) key (prirtyLst rl)"
      and ck: "CmputKey rl (insts (dataDepGraph rl) ! x) False = Inr (key, c, inst1)"
      and g1: "dataDepGraph rl1 = (dataDepGraph rl)\<lparr>insts := (insts (dataDepGraph rl))[x := inst1]\<rparr>"
      by blast
    have pl2: "prirtyLst rl2 = InsrtElmnt (num (insts (dataDepGraph rl) ! x)) key (prirtyLst rl)"
      unfolding rl2_def using pl by (simp add: putInst_def)
    have num2: "num (insts (dataDepGraph rl2) ! j) = num (insts (dataDepGraph rl) ! j)" for j
      unfolding rl2_def using g1 CmputKey_result(1) [OF ck] x
      by (cases "j = x") (simp_all add: putInst_def PutInReadyList_def)
    have sc: "scanned (readyFlags rl) (x # xs) = x # scanned (readyFlags rl2) xs"
      using False x by (simp add: readyFlags_nth f2)
    note ih = Cons.IH [OF loop]
    show ?thesis
      unfolding sc using ih x
      by (auto simp: f2 l2 p2 pl2 num2)
  qed
qed

lemma bitsOfNat_examples:
  "bitsOfNat 5 = 3" "bitsOfNat 3 = 2" "bitsOfNat 2147483647 = 31"
  by (simp_all add: bitsOfNat.simps)

lemma fieldWidth_examples:
  "fieldWidth exGraph LSH_CP = 3" "fieldWidth exGraph LSH_UC = 2"
  "fieldWidth exGraph LSH_SC = 31" "fieldWidth exGraph LSH_LS = 31"
  by (simp_all add: fieldWidth_def fieldMax_def exGraph_def clcltBitsNeededToHoldNum_def
      bitsOfNat_examples)

lemma fieldMax_examples:
  "fieldMax exGraph LSH_CP = 5" "fieldMax exGraph LSH_UC = 3"
  by (simp_all add: fieldMax_def exGraph_def)

lemma ReadyList_new_example: "ReadyList_new exGraph exPrirts = Inr exReadyList"
  by (simp add: ReadyList_new_def exPrirts_def exGraph_def emptyReadyList_def exReadyList_def
      clcltBitsNeededToHoldNum_def bitsOfNat_examples AddPrirtyToKey_def)

text \<open>
  C5. Construction fails when the widths of the configured fields sum to more than the 64
  bits of the key; when they fit, construction succeeds and \<open>MaxPriority\<close> is the
  bitwise OR of the field maxima, each shifted left into its field, the first criterion
  most significant. The configuration array has a fixed small capacity in the source;
  the statement takes a configuration of fewer than 1024 criteria, for which the 16-bit
  sum of the widths cannot wrap around.
\<close>

theorem ReadyList_new_widths:
  assumes "cnt p \<le> length (vctr p)" and "cnt p < 1024"
  shows "(64 < sum_list (map (fieldWidth g) (configured p)) \<longrightarrow> ReadyList_new g p = Inl AssertFailed) \<and>
         (sum_list (map (fieldWidth g) (configured p)) \<le> 64 \<longrightarrow>
            (\<exists>rl. ReadyList_new g p = Inr rl \<and>
                  MaxPriority rl = packFields (map (\<lambda>h. (fieldWidth g h, fieldMax g h)) (configured p))))"
proof -
  let ?hs = "configured p"
  obtain rl t where loop: "ctorBitsLoop g ?hs (emptyReadyList g p, 0) = (rl, t)"
    by (cases "ctorBitsLoop g ?hs (emptyReadyList g p, 0)") auto
  have r: "(\<forall>h \<in> set ?hs. laidOut g rl h) \<and> t = (0 + sum_list (map (fieldWidth g) ?hs)) mod 65536"
    using ctorBitsLoop_result [OF loop] by simp
  have len: "length ?hs = cnt p" using assms(1) by (simp add: configured_def)
  have "sum_list (map (fieldWidth g) ?hs) \<le> 64 * cnt p"
    using sum_fieldWidth_le [of g ?hs] len by simp
  with assms(2) have "sum_list (map (fieldWidth g) ?hs) < 65536" by simp
  with r have t: "t = sum_list (map (fieldWidth g) ?hs)" by simp
  have lo: "\<forall>h \<in> set ?hs. laidOut g rl h" using r by blast
  have kf: "ctorMaxLoop rl ?hs 0 0 =
      Inr (packFields (map (\<lambda>h. (fieldWidth g h, fieldMax g h)) ?hs), sum_list (map (fieldWidth g) ?hs))"
    unfolding ctorMaxLoop_keyFold
    by (subst keyFold_layout [OF _ maxFields_fitting [OF lo]], simp)
       (simp only: maxFields_pack [OF lo] maxFields_widths [OF lo], simp)
  show ?thesis
    using assms(1) loop t kf
    by (auto simp: ReadyList_new_def MaxPriority_def configured_def)
qed

theorem ReadyList_new_widths_witness:
  "cnt exPrirts \<le> length (vctr exPrirts) \<and> cnt exPrirts < 1024 \<and>
   sum_list (map (fieldWidth exGraph) (configured exPrirts)) \<le> 64 \<and>
   (\<exists>rl. ReadyList_new exGraph exPrirts = Inr rl \<and> MaxPriority rl = 23) \<and>
   cnt exWidePrirts \<le> length (vctr exWidePrirts) \<and> cnt exWidePrirts < 1024 \<and>
   64 < sum_list (map (fieldWidth exGraph) (configured exWidePrirts)) \<and>
   ReadyList_new exGraph exWidePrirts = Inl AssertFailed"
proof -
  have a: "cnt exPrirts \<le> length (vctr exPrirts)" "cnt exPrirts < 1024"
    by (simp_all add: exPrirts_def)
  have b: "cnt exWidePrirts \<le> length (vctr exWidePrirts)" "cnt exWidePrirts < 1024"
    by (simp_all add: exWidePrirts_def)
  have s1: "sum_list (map (fieldWidth exGraph) (configured exPrirts)) = 5"
    by (simp add: configured_def exPrirts_def fieldWidth_examples)
  have s2: "sum_list (map (fieldWidth exGraph) (configured exWidePrirts)) = 65"
    by (simp add: configured_def exWidePrirts_def fieldWidth_examples)
  have pk: "packFields (map (\<lambda>h. (fieldWidth exGraph h, fieldMax exGraph h)) (configured exPrirts)) = 23"
    by (simp add: configured_def exPrirts_def fieldWidth_examples fieldMax_examples)
  show ?thesis
    using ReadyList_new_widths [OF a, of exGraph] ReadyList_new_widths [OF b, of exGraph] a b
    by (simp add: s1 s2 pk)
qed

text \<open>
  C4. For two instructions whose field values agree on every configured criterion but
  the first, the one with the larger first field has the strictly larger key, in the
  unsigned order of keys, whatever the values of the other fields. The ready list is one
  whose construction succeeded (for a configuration of fewer than 1024 criteria, see C5),
  and both keys are computed without a failed assertion.
\<close>

theorem first_criterion_dominates:
  assumes "ReadyList_new g p = Inr rl" and "cnt p < 1024"
      and "configured p = h # hs"
      and "CmputKey rl inst1 upd1 = Inr (key1, c1, inst1')"
      and "CmputKey rl inst2 upd2 = Inr (key2, c2, inst2')"
      and "map (fieldVal rl inst1) hs = map (fieldVal rl inst2) hs"
      and "fieldVal rl inst1 h < fieldVal rl inst2 h"
  shows "key1 < key2"
proof -
  have wc: "wellConfigured g rl" using assms(1,2) by (rule ReadyList_new_wellConfigured)
  have p: "prirts rl = p" using ReadyList_new_laidOut [OF assms(1,2)] by simp
  have cfg: "configured (prirts rl) = h # hs" using p assms(3) by simp
  let ?F = "map (\<lambda>x. (fieldWidth g x, fieldVal rl inst2 x)) hs"
  have same: "map (\<lambda>x. (fieldWidth g x, fieldVal rl inst1 x)) hs = ?F"
    using assms(6) by (induction hs) auto
  have k1: "key1 = packFields ((fieldWidth g h, fieldVal rl inst1 h) # ?F)"
    using CmputKey_packed(1) [OF wc assms(4)] cfg same by simp
  have k2: "key2 = packFields ((fieldWidth g h, fieldVal rl inst2 h) # ?F)"
    using CmputKey_packed(1) [OF wc assms(5)] cfg by simp
  have n2: "narrow ((fieldWidth g h, fieldVal rl inst2 h) # ?F)"
    using CmputKey_packed(2) [OF wc assms(5)] cfg by simp
  have "sum_list (map (fieldWidth g) (h # hs)) \<le> 64"
    using wc cfg by (simp add: wellConfigured_def)
  moreover have "map fst ?F = map (fieldWidth g) hs" by simp
  ultimately have s: "fieldWidth g h + sum_list (map fst ?F) \<le> 64" by (simp add: comp_def)
  show ?thesis unfolding k1 k2 by (rule packFields_head_mono [OF n2 s assms(7)])
qed

lemma CmputKey_examples:
  "CmputKey exReadyList (exInst 0 2 3) False = Inr (11, True, exInst 0 2 3)"
  "CmputKey exReadyList (exInst 1 3 3) False = Inr (15, True, exInst 1 3 3)"
  by (simp_all add: CmputKey_def exReadyList_def exPrirts_def exInst_def AddPrirtyToKey_def)

theorem first_criterion_dominates_witness:
  "ReadyList_new exGraph exPrirts = Inr exReadyList \<and> cnt exPrirts < 1024 \<and>
   configured exPrirts = LSH_CP # [LSH_UC] \<and>
   CmputKey exReadyList (exInst 0 2 3) False = Inr (11, True, exInst 0 2 3) \<and>
   CmputKey exReadyList (exInst 1 3 3) False = Inr (15, True, exInst 1 3 3) \<and>
   map (fieldVal exReadyList (exInst 0 2 3)) [LSH_UC] = map (fieldVal exReadyList (exInst 1 3 3)) [LSH_UC] \<and>
   fieldVal exReadyList (exInst 0 2 3) LSH_CP < fieldVal exReadyList (exInst 1 3 3) LSH_CP \<and>
   (11 :: ulong) < 15"
proof -
  have c: "cnt exPrirts < 1024" by (simp add: exPrirts_def)
  have cfg: "configured exPrirts = LSH_CP # [LSH_UC]" by (simp add: configured_def exPrirts_def)
  have same: "map (fieldVal exReadyList (exInst 0 2 3)) [LSH_UC] = map (fieldVal exReadyList (exInst 1 3 3)) [LSH_UC]"
    by (simp add: exInst_def)
  have lt: "fieldVal exReadyList (exInst 0 2 3) LSH_CP < fieldVal exReadyList (exInst 1 3 3) LSH_CP"
    by (simp add: exInst_def)
  show ?thesis
    using first_criterion_dominates [OF ReadyList_new_example c cfg CmputKey_examples same lt]
      ReadyList_new_example c cfg CmputKey_examples same lt
    by simp
qed

lemma markAll_nth:
  "j < length q \<Longrightarrow> markAll b is q ! j = (if j \<in> set is then b else q ! j)"
proof (induction "is" arbitrary: q)
  case Nil
  then show ?case by simp
next
  case (Cons i "is")
  then show ?case by (cases "i = j") auto
qed

lemma scanned_fresh:
  "\<forall>i \<in> set (scanned q xs). i < length q \<Longrightarrow>
     distinct (scanned q xs) \<and> (\<forall>i \<in> set (scanned q xs). \<not> q ! i)"
proof (induction xs arbitrary: q)
  case Nil
  then show ?case by simp
next
  case (Cons x xs)
  show ?case
  proof (cases "q ! x")
    case True
    then show ?thesis by simp
  next
    case False
    with Cons.prems have x: "x < length q"
      and rest: "\<forall>i \<in> set (scanned (q[x := True]) xs). i < length (q[x := True])" by auto
    from Cons.IH [OF rest] have d: "distinct (scanned (q[x := True]) xs)"
      and f: "\<forall>i \<in> set (scanned (q[x := True]) xs). \<not> (q[x := True]) ! i" by auto
    from f x have nx: "x \<notin> set (scanned (q[x := True]) xs)" by auto
    from f nx have "\<forall>i \<in> set (scanned (q[x := True]) xs). \<not> q ! i"
      by (metis nth_list_update_neq)
    with False d nx show ?thesis by simp
  qed
qed

lemma unmark_marked:
  assumes "\<forall>i \<in> set is. i < length q \<and> \<not> q ! i"
  shows "markAll False is (markAll True is q) = q"
proof (rule nth_equalityI)
  show "length (markAll False is (markAll True is q)) = length q" by simp
next
  fix j assume "j < length (markAll False is (markAll True is q))"
  then have j: "j < length q" by simp
  then show "markAll False is (markAll True is q) ! j = q ! j"
    using assms by (auto simp: markAll_nth)
qed

lemma queuedBefore_butlast:
  assumes "queuedBefore q (l @ [x])"
  shows "queuedBefore q l"
  unfolding queuedBefore_def
proof (intro allI impI)
  fix j k assume j: "j < length l" and qj: "q ! (l ! j)" and k: "k < j"
  from j have "j < length (l @ [x])" by simp
  moreover from j qj have "q ! ((l @ [x]) ! j)" by (simp add: nth_append)
  ultimately have "q ! ((l @ [x]) ! k)"
    using assms k unfolding queuedBefore_def by blast
  with j k show "q ! (l ! k)" by (simp add: nth_append)
qed

lemma queuedBefore_last:
  assumes "queuedBefore q (l @ [x])" and "q ! x"
  shows "\<forall>i \<in> set l. q ! i"
proof
  fix i assume "i \<in> set l"
  then obtain k where k: "k < length l" and i: "l ! k = i" by (auto simp: in_set_conv_nth)
  have "length l < length (l @ [x])" by simp
  moreover have "q ! ((l @ [x]) ! length l)" using assms(2) by simp
  ultimately have "q ! ((l @ [x]) ! k)"
    using assms(1) k unfolding queuedBefore_def by blast
  with k i show "q ! i" by (simp add: nth_append)
qed

lemma queuedBefore_update:
  assumes "queuedBefore q l" and "x \<notin> set l"
  shows "queuedBefore (q[x := b]) l"
  unfolding queuedBefore_def
proof (intro allI impI)
  fix j k assume j: "j < length l" and qj: "(q[x := b]) ! (l ! j)" and k: "k < j"
  from j assms(2) have "l ! j \<noteq> x" by (metis nth_mem)
  with qj have "q ! (l ! j)" by simp
  with assms(1) j k have "q ! (l ! k)" unfolding queuedBefore_def by blast
  moreover from j k assms(2) have "l ! k \<noteq> x" by (metis nth_mem order_less_trans)
  ultimately show "(q[x := b]) ! (l ! k)" by simp
qed

lemma scanned_all_unqueued:
  assumes "distinct lst" and "queuedBefore q lst"
  shows "set (scanned q (rev lst)) = {i \<in> set lst. \<not> q ! i}"
  using assms
proof (induction lst arbitrary: q rule: rev_induct)
  case Nil
  then show ?case by simp
next
  case (snoc x l)
  from snoc.prems(1) have dl: "distinct l" and xl: "x \<notin> set l" by auto
  show ?case
  proof (cases "q ! x")
    case True
    with queuedBefore_last [OF snoc.prems(2)] show ?thesis by auto
  next
    case False
    have same: "(q[x := True]) ! i = q ! i" if "i \<in> set l" for i
      using that xl by (cases "i = x") auto
    have "queuedBefore (q[x := True]) l"
      using queuedBefore_butlast [OF snoc.prems(2)] xl by (rule queuedBefore_update)
    from snoc.IH [OF dl this] have "set (scanned (q[x := True]) (rev l)) = {i \<in> set l. \<not> q ! i}"
      using same by auto
    with False show ?thesis by auto
  qed
qed

text \<open>
  C7. \<open>AddLatestSubList_\<close> walks the sequence from its last element to its first; each
  instruction that is not queued when the walk reaches it is added to the container and
  recorded at the end of the latest sublist, and the walk stops at the first instruction
  that is queued when it is reached (\<open>scanned\<close>). When the sequence has no repeated
  instruction and every queued element has only queued elements before it, the
  instructions added are exactly the elements of the sequence that were not queued.
\<close>

theorem AddLatestSubList_scan:
  assumes "AddLatestSubList rl lst = Inr rl'"
  shows "latestSubLst rl' = latestSubLst rl @ scanned (readyFlags rl) (rev lst) \<and>
         readyFlags rl' = markAll True (scanned (readyFlags rl) (rev lst)) (readyFlags rl) \<and>
         set (map fst (prirtyLst rl')) =
           set (map fst (prirtyLst rl)) \<union>
           (\<lambda>i. num (insts (dataDepGraph rl) ! i)) ` set (scanned (readyFlags rl) (rev lst)) \<and>
         (distinct lst \<and> queuedBefore (readyFlags rl) lst \<longrightarrow>
            set (scanned (readyFlags rl) (rev lst)) = {i \<in> set lst. \<not> readyFlags rl ! i})"
proof -
  have loop: "AddLatestSubListLoop (rev lst) rl = Inr rl'"
    using assms by (simp add: AddLatestSubList_def)
  have "distinct lst \<and> queuedBefore (readyFlags rl) lst \<longrightarrow>
            set (scanned (readyFlags rl) (rev lst)) = {i \<in> set lst. \<not> readyFlags rl ! i}"
    using scanned_all_unqueued [of lst "readyFlags rl"] by blast
  with AddLatestSubListLoop_result [OF loop] show ?thesis by blast
qed

lemma RemoveLatestSubListLoop_result:
  assumes "distinct xs" and "\<forall>i \<in> set xs. i < length (readyFlags rl) \<and> readyFlags rl ! i"
  shows "\<exists>rl'. RemoveLatestSubListLoop xs rl = Inr rl' \<and>
           readyFlags rl' = markAll False xs (readyFlags rl) \<and>
           latestSubLst rl' = latestSubLst rl \<and> prirtyLst rl' = prirtyLst rl"
  using assms
proof (induction xs arbitrary: rl)
  case Nil
  then show ?case by simp
next
  case (Cons x xs)
  define rl1 where "rl1 = putInst rl x (RemoveFromReadyList (insts (dataDepGraph rl) ! x))"
  from Cons.prems have x: "x < length (insts (dataDepGraph rl))" and fx: "ready (insts (dataDepGraph rl) ! x)"
    by (auto simp: readyFlags_nth)
  have f1: "readyFlags rl1 = (readyFlags rl)[x := False]"
    by (simp add: rl1_def readyFlags_putInst RemoveFromReadyList_def)
  have l1: "latestSubLst rl1 = latestSubLst rl" "prirtyLst rl1 = prirtyLst rl"
    by (simp_all add: rl1_def putInst_def)
  have "\<forall>i \<in> set xs. i < length (readyFlags rl1) \<and> readyFlags rl1 ! i"
    using Cons.prems by (auto simp: f1 nth_list_update)
  with Cons.IH [of rl1] Cons.prems(1) obtain rl' where r:
    "RemoveLatestSubListLoop xs rl1 = Inr rl'"
    "readyFlags rl' = markAll False xs (readyFlags rl1)"
    "latestSubLst rl' = latestSubLst rl1" "prirtyLst rl' = prirtyLst rl1" by auto
  have "RemoveLatestSubListLoop (x # xs) rl = RemoveLatestSubListLoop xs rl1"
    using x fx by (simp add: GetInstByIndx_def IsInReadyList_def rl1_def)
  with r show ?case by (simp add: f1 l1)
qed

lemma AddLatestSubLists_result:
  assumes "AddLatestSubLists rl lst1 lst2 = Inr rl1"
  shows "\<exists>added. latestSubLst rl1 = added \<and> distinct added \<and>
           (\<forall>i \<in> set added. i < length (readyFlags rl) \<and> \<not> readyFlags rl ! i) \<and>
           readyFlags rl1 = markAll True added (readyFlags rl)"
proof -
  from assms have e: "latestSubLst rl = []"
    by (auto simp: AddLatestSubLists_def split: if_splits)
  have one: "\<exists>added. latestSubLst r' = latestSubLst r @ added \<and> distinct added \<and>
           (\<forall>i \<in> set added. i < length (readyFlags r) \<and> \<not> readyFlags r ! i) \<and>
           readyFlags r' = markAll True added (readyFlags r)"
    if "(case l of None \<Rightarrow> Inr r | Some xs \<Rightarrow> AddLatestSubList r xs) = Inr r'" for l r r'
  proof (cases l)
    case None
    with that show ?thesis by auto
  next
    case (Some xs)
    with that have "AddLatestSubListLoop (rev xs) r = Inr r'" by (simp add: AddLatestSubList_def)
    from AddLatestSubListLoop_result [OF this] scanned_fresh [of "readyFlags r" "rev xs"]
    show ?thesis by auto
  qed
  from assms e obtain r1 where
    a1: "(case lst1 of None \<Rightarrow> Inr rl | Some xs \<Rightarrow> AddLatestSubList rl xs) = Inr r1" and
    a2: "(case lst2 of None \<Rightarrow> Inr r1 | Some xs \<Rightarrow> AddLatestSubList r1 xs) = Inr rl1"
    by (auto simp: AddLatestSubLists_def split: sum.splits)
  from one [OF a1] e obtain s1 where s1: "latestSubLst r1 = s1" "distinct s1"
    "\<forall>i \<in> set s1. i < length (readyFlags rl) \<and> \<not> readyFlags rl ! i"
    "readyFlags r1 = markAll True s1 (readyFlags rl)" by auto
  from one [OF a2] obtain s2 where s2: "latestSubLst rl1 = latestSubLst r1 @ s2" "distinct s2"
    "\<forall>i \<in> set s2. i < length (readyFlags r1) \<and> \<not> readyFlags r1 ! i"
    "readyFlags rl1 = markAll True s2 (readyFlags r1)" by auto
  have disj: "\<forall>i \<in> set s2. i \<notin> set s1 \<and> i < length (readyFlags rl) \<and> \<not> readyFlags rl ! i"
    using s2(3) s1(4) by (auto simp: markAll_nth split: if_splits)
  show ?thesis
    using s1 s2 disj by (intro exI [of _ "s1 @ s2"]) auto
qed

text \<open>
  C3. From a ready list whose latest sublist is empty, \<open>AddLatestSubLists\<close> followed by
  \<open>RemoveLatestSubList\<close> leaves the ready-queued flag of every instruction as it was
  before the addition. \<open>RemoveLatestSubList\<close> does not empty the latest sublist: it
  still holds the instructions the addition recorded (\<open>Reset\<close> empties it).
\<close>

theorem add_remove_latest_restores_flags:
  assumes "latestSubLst rl = []" and "AddLatestSubLists rl lst1 lst2 = Inr rl1"
  shows "\<exists>rl2. RemoveLatestSubList rl1 = Inr rl2 \<and> readyFlags rl2 = readyFlags rl \<and>
               latestSubLst rl2 = latestSubLst rl1 \<and> latestSubLst (Reset rl2) = []"
proof -
  from AddLatestSubLists_result [OF assms(2)] have d: "distinct (latestSubLst rl1)"
    and fresh: "\<forall>i \<in> set (latestSubLst rl1). i < length (readyFlags rl) \<and> \<not> readyFlags rl ! i"
    and f1: "readyFlags rl1 = markAll True (latestSubLst rl1) (readyFlags rl)" by auto
  have "\<forall>i \<in> set (latestSubLst rl1). i < length (readyFlags rl1) \<and> readyFlags rl1 ! i"
    using fresh by (auto simp: f1 markAll_nth)
  from RemoveLatestSubListLoop_result [OF d this] obtain rl2 where
    r: "RemoveLatestSubList rl1 = Inr rl2" "readyFlags rl2 = markAll False (latestSubLst rl1) (readyFlags rl1)"
    "latestSubLst rl2 = latestSubLst rl1" by (auto simp: RemoveLatestSubList_def)
  have "readyFlags rl2 = readyFlags rl"
    using r(2) unmark_marked [OF fresh] by (simp add: f1)
  with r show ?thesis by (simp add: Reset_def)
qed

text \<open>
  C9. After a successful \<open>AddInst\<close> the instruction is in the container under its number
  with the key computed for it, and every ready-queued flag is as it was before the call:
  \<open>AddInst\<close> does not set the flag.
\<close>

theorem AddInst_inserts_and_keeps_flags:
  assumes "AddInst rl i = Inr rl'"
  shows "\<exists>key c inst1. CmputKey rl (insts (dataDepGraph rl) ! i) False = Inr (key, c, inst1) \<and>
           (num (insts (dataDepGraph rl) ! i), key) \<in> set (prirtyLst rl') \<and>
           readyFlags rl' = readyFlags rl"
  using AddInst_result(2,5) [OF assms] by auto

lemma exInst_simps [simp]:
  "num (exInst n cp uc) = n" "ready (exInst n cp uc) = False"
  by (simp_all add: exInst_def)

lemma CmputKey_exReadyList:
  "CmputKey (rl\<lparr>useCntBits := 2, crtclPathBits := 3, maxUseCnt := 3, maxCrtclPath := 5, prirts := exPrirts\<rparr>)
     (exInst n 2 3) False = Inr (11, True, exInst n 2 3)"
  "CmputKey (rl\<lparr>useCntBits := 2, crtclPathBits := 3, maxUseCnt := 3, maxCrtclPath := 5, prirts := exPrirts\<rparr>)
     (exInst n 5 0) False = Inr (20, True, exInst n 5 0)"
  "CmputKey (rl\<lparr>useCntBits := 2, crtclPathBits := 3, maxUseCnt := 3, maxCrtclPath := 5, prirts := exPrirts\<rparr>)
     (exInst n 3 3) False = Inr (15, True, exInst n 3 3)"
  by (simp_all add: CmputKey_def exPrirts_def exInst_def AddPrirtyToKey_def)

lemma AddInst_example: "AddInst exReadyList 0 = Inr exAfterAddInst"
  using CmputKey_exReadyList(1) [of exReadyList 0]
  by (simp add: AddInst_def GetInstByIndx_def exReadyList_def exGraph_def putInst_def exAfterAddInst_def)

lemma AddLatestSubList_example: "AddLatestSubList exReadyList [0] = Inr exAfterAdd"
  using CmputKey_exReadyList(1) [of exReadyList 0]
  by (simp add: AddLatestSubList_def AddInst_def GetInstByIndx_def IsInReadyList_def
      PutInReadyList_def exReadyList_def exGraph_def putInst_def exAfterAdd_def)

lemma AddLatestSubLists_example: "AddLatestSubLists exReadyList (Some [0]) None = Inr exAfterAdd"
  using AddLatestSubList_example by (simp add: AddLatestSubLists_def) (simp add: exReadyList_def)

lemma AddLatestSubList_example2: "AddLatestSubList exAfterAdd [0, 2] = Inr exAfterAdd2"
  using CmputKey_exReadyList(2) [of exAfterAdd 2]
  by (simp add: AddLatestSubList_def AddInst_def GetInstByIndx_def IsInReadyList_def
      PutInReadyList_def exReadyList_def exGraph_def putInst_def exAfterAdd_def exAfterAdd2_def)

lemma AddLatestSubList_example3:
  "latestOf (AddLatestSubList exReadyList [2, 1, 1]) = Some [1]"
  using CmputKey_exReadyList(3) [of exReadyList 1]
  by (simp add: latestOf_def AddLatestSubList_def AddInst_def GetInstByIndx_def IsInReadyList_def
      PutInReadyList_def exReadyList_def exGraph_def putInst_def)

lemma readyFlags_examples:
  "readyFlags exReadyList = [False, False, False]"
  "readyFlags exAfterAdd = [True, False, False]"
  "readyFlags exAfterAdd2 = [True, False, True]"
  by (simp_all add: readyFlags_def exReadyList_def exGraph_def exAfterAdd_def exAfterAdd2_def)

theorem add_remove_latest_restores_flags_witness:
  "latestSubLst exReadyList = [] \<and>
   AddLatestSubLists exReadyList (Some [0]) None = Inr exAfterAdd \<and>
   (\<exists>rl2. RemoveLatestSubList exAfterAdd = Inr rl2 \<and> readyFlags rl2 = readyFlags exReadyList \<and>
          latestSubLst rl2 = latestSubLst exAfterAdd \<and> latestSubLst (Reset rl2) = [])"
proof -
  have e: "latestSubLst exReadyList = []" by (simp add: exReadyList_def)
  show ?thesis
    using add_remove_latest_restores_flags [OF e AddLatestSubLists_example] e AddLatestSubLists_example
    by simp
qed

theorem remove_latest_keeps_sublist_counterexample:
  "latestSubLst exReadyList = [] \<and>
   latestOf (thenRemove (AddLatestSubLists exReadyList (Some [0]) None)) = Some [0]"
proof -
  have "latestOf (thenRemove (Inr exAfterAdd)) = Some [0]"
    by (simp add: thenRemove_def latestOf_def RemoveLatestSubList_def
        GetInstByIndx_def IsInReadyList_def RemoveFromReadyList_def putInst_def
        exAfterAdd_def exReadyList_def exGraph_def)
  moreover have "latestSubLst exReadyList = []" by (simp add: exReadyList_def)
  ultimately show ?thesis by (simp only: AddLatestSubLists_example)
qed

theorem AddLatestSubList_scan_witness:
  "AddLatestSubList exAfterAdd [0, 2] = Inr exAfterAdd2 \<and>
   distinct [0, 2 :: nat] \<and> queuedBefore (readyFlags exAfterAdd) [0, 2] \<and>
   latestSubLst exAfterAdd2 = latestSubLst exAfterAdd @ [2] \<and>
   set (scanned (readyFlags exAfterAdd) (rev [0, 2])) = {i \<in> set [0, 2]. \<not> readyFlags exAfterAdd ! i}"
proof -
  have q: "queuedBefore (readyFlags exAfterAdd) [0, 2]"
    by (simp add: queuedBefore_def readyFlags_examples less_Suc_eq numeral_2_eq_2)
  have sc: "scanned (readyFlags exAfterAdd) (rev [0, 2]) = [2]"
    by (simp add: readyFlags_examples)
  show ?thesis
    using AddLatestSubList_scan [OF AddLatestSubList_example2] AddLatestSubList_example2 q
    unfolding sc by (auto simp: readyFlags_examples)
qed

theorem AddLatestSubList_repeated_counterexample:
  "queuedBefore (readyFlags exReadyList) [2, 1, 1] \<and>
   readyFlags exReadyList = [False, False, False] \<and>
   latestOf (AddLatestSubList exReadyList [2, 1, 1]) = Some [1]"
  using AddLatestSubList_example3
  by (simp add: readyFlags_examples queuedBefore_def nth_Cons')

theorem AddInst_inserts_and_keeps_flags_witness:
  "AddInst exReadyList 0 = Inr exAfterAddInst \<and>
   (\<exists>key c inst1. CmputKey exReadyList (insts (dataDepGraph exReadyList) ! 0) False = Inr (key, c, inst1) \<and>
      (num (insts (dataDepGraph exReadyList) ! 0), key) \<in> set (prirtyLst exAfterAddInst) \<and>
      readyFlags exAfterAddInst = readyFlags exReadyList)"
  using AddInst_inserts_and_keeps_flags [OF AddInst_example] AddInst_example by simp

theorem AddInst_flag_counterexample:
  "readyFlags exReadyList = [False, False, False] \<and>
   flagsOf (AddInst exReadyList 0) = Some [False, False, False]"
  by (simp add: AddInst_example flagsOf_def readyFlags_examples)
     (simp add: readyFlags_def exAfterAddInst_def exReadyList_def exGraph_def)

lemma triple_Nil: "(\<And>s. A s \<Longrightarrow> B s) \<Longrightarrow> stageTriple A (runStages []) B R"
  by (simp add: stageTriple_def)

lemma triple_Cons:
  assumes "stageTriple A f B R" and "stageTriple B (runStages fs) C R"
  shows "stageTriple A (runStages (f # fs)) C R"
  unfolding stageTriple_def
proof (intro allI impI)
  fix s assume a: "A s"
  show "case runStages (f # fs) s of
          Inr s1 \<Rightarrow> C s1 | Inl Crash \<Rightarrow> True | Inl (Returned x code s1) \<Rightarrow> R x code s1"
  proof (cases "f s")
    case (Inl out)
    with assms(1) a show ?thesis by (auto simp: stageTriple_def)
  next
    case (Inr s1)
    with assms(1) a have "B s1" by (auto simp: stageTriple_def)
    with assms(2) Inr show ?thesis by (simp add: stageTriple_def)
  qed
qed

lemma triple_Inr: "stageTriple A f B R \<Longrightarrow> A s \<Longrightarrow> f s = Inr s1 \<Longrightarrow> B s1"
  by (auto simp: stageTriple_def)

lemma triple_Returned: "stageTriple A f B R \<Longrightarrow> A s \<Longrightarrow> f s = Inl (Returned x code s1) \<Longrightarrow> R x code s1"
  by (auto simp: stageTriple_def)

lemma runStages_append:
  "runStages (fs @ gs) s = (case runStages fs s of Inl out \<Rightarrow> Inl out | Inr s1 \<Rightarrow> runStages gs s1)"
  by (induction fs arbitrary: s) (auto split: sum.splits)

lemmas stage_defs =
  stageTriple_def stageConfig_def stageSetup_def stageLwrBounds_def CmputLwrBounds_def
  stageHeuristic_def stageAco_def stageIncumbent_def stageUprBounds_def CmputUprBounds_def
  stagePerp_def stageEnableEnum_def stageEnum_def Optimize_def RegAlloc_def stageAcoAfter_def
  stageVerify_def stageFinalBounds_def stageChkSchedule_def stageFree_def stageOutputs_def
  stageDiscard_def Let_def

lemma applyTransLoop_gate:
  "untouched c s \<Longrightarrow>
     (case applyTransLoop GTs s of
        Inr s1 \<Rightarrow> untouched c s1
      | Inl Crash \<Rightarrow> True
      | Inl (Returned x code s1) \<Rightarrow> gateReturn e c x code s1)"
  by (induction GTs arbitrary: s) (auto simp: untouched_def gateReturn_def)

lemma gate_stageConfig: "stageTriple (untouched c) (stageConfig e) (untouched c) (gateReturn e c)"
  by (auto simp: stage_defs untouched_def gateReturn_def)

lemma gate_stageSetup: "stageTriple (untouched c) (stageSetup e) (untouched c) (gateReturn e c)"
proof -
  have "untouched c (s\<lparr>rslt := r\<rparr>)" if "untouched c s" for s r
    using that by (simp add: untouched_def)
  then show ?thesis
    using applyTransLoop_gate [where c = c and e = e and GTs = "GraphTransformations e"]
    by (auto simp: stage_defs gateReturn_def)
qed

lemma gate_stageLwrBounds: "stageTriple (untouched c) (stageLwrBounds e) (untouched c) (gateReturn e c)"
  by (auto simp: stage_defs untouched_def gateReturn_def)

lemma gate_stageHeuristic: "stageTriple (untouched c) (stageHeuristic e) (untouched c) (gateReturn e c)"
  by (auto simp: stage_defs untouched_def gateReturn_def)

lemma gate_stageAco: "stageTriple (untouched c) (stageAco e) (untouched c) (gateReturn e c)"
  by (auto simp: stage_defs untouched_def gateReturn_def)

lemma gate_stageIncumbent: "stageTriple (untouched c) (stageIncumbent e) (untouched c) (gateReturn e c)"
  by (auto simp: stage_defs untouched_def gateReturn_def split: option.splits)

lemma gate_stageUprBounds:
  "stageTriple (untouched c) (stageUprBounds e) (\<lambda>s. untouched c s \<and> bestSched s \<noteq> None) (gateReturn e c)"
  by (auto simp: stage_defs untouched_def gateReturn_def split: option.splits)

lemma gate_stagePerp:
  "stageTriple (\<lambda>s. untouched c s \<and> bestSched s \<noteq> None) (stagePerp e)
     (\<lambda>s. untouched c s \<and> bestSched s \<noteq> None) (gateReturn e c)"
  by (auto simp: stage_defs untouched_def gateReturn_def split: option.splits)

lemma gate_stageEnableEnum:
  "stageTriple (\<lambda>s. untouched c s \<and> bestSched s \<noteq> None) (stageEnableEnum e)
     (\<lambda>s. EnableEnum e) (gateReturn e c)"
  by (auto simp: stage_defs untouched_def gateReturn_def)

lemma gate_stageEnum: "stageTriple (\<lambda>s. EnableEnum e) (stageEnum e) (\<lambda>s. EnableEnum e) (gateReturn e c)"
  by (auto simp: stage_defs gateReturn_def split: option.splits)

lemma gate_stageAcoAfter:
  "stageTriple (\<lambda>s. EnableEnum e) (stageAcoAfter e) (\<lambda>s. EnableEnum e) (gateReturn e c)"
  by (auto simp: stage_defs gateReturn_def)

lemma gate_stageVerify:
  "stageTriple (\<lambda>s. EnableEnum e) (stageVerify e) (\<lambda>s. EnableEnum e) (gateReturn e c)"
  by (auto simp: stage_defs gateReturn_def split: option.splits)

lemma gate_stageFinalBounds:
  "stageTriple (\<lambda>s. EnableEnum e) (stageFinalBounds e) (\<lambda>s. EnableEnum e) (gateReturn e c)"
  by (auto simp: stage_defs gateReturn_def)

lemma gate_stageChkSchedule:
  "stageTriple (\<lambda>s. EnableEnum e) (stageChkSchedule e) (\<lambda>s. EnableEnum e) (gateReturn e c)"
  by (auto simp: stage_defs gateReturn_def)

lemma gate_stageFree:
  "stageTriple (\<lambda>s. EnableEnum e) (stageFree e) (\<lambda>s. EnableEnum e) (gateReturn e c)"
  by (auto simp: stage_defs gateReturn_def)

lemma gate_stageOutputs:
  "stageTriple (\<lambda>s. EnableEnum e) (stageOutputs e) (\<lambda>s. EnableEnum e) (gateReturn e c)"
  by (auto simp: stage_defs gateReturn_def)

lemma gate_stageDiscard:
  "stageTriple (\<lambda>s. EnableEnum e) (stageDiscard e) (\<lambda>s. EnableEnum e) (gateReturn e c)"
  by (auto simp: stage_defs gateReturn_def)

lemma untouched_entry: "untouched c (entryState e c)"
  by (simp add: untouched_def entryState_def)

lemma gate_all:
  "stageTriple (untouched c) (runStages (preSearchStages e @ searchStages e @ finishStages e))
     (\<lambda>s. EnableEnum e) (gateReturn e c)"
  unfolding preSearchStages_def searchStages_def finishStages_def append.simps
  by (intro triple_Cons [OF gate_stageConfig] triple_Cons [OF gate_stageSetup]
      triple_Cons [OF gate_stageLwrBounds] triple_Cons [OF gate_stageHeuristic]
      triple_Cons [OF gate_stageAco] triple_Cons [OF gate_stageIncumbent]
      triple_Cons [OF gate_stageUprBounds] triple_Cons [OF gate_stagePerp]
      triple_Cons [OF gate_stageEnableEnum] triple_Cons [OF gate_stageEnum]
      triple_Cons [OF gate_stageAcoAfter] triple_Cons [OF gate_stageVerify]
      triple_Cons [OF gate_stageFinalBounds] triple_Cons [OF gate_stageChkSchedule]
      triple_Cons [OF gate_stageFree] triple_Cons [OF gate_stageOutputs]
      triple_Cons [OF gate_stageDiscard] triple_Nil)

lemma FindOptimalSchedule_cases:
  assumes "FindOptimalSchedule e c = Returned x code s"
  shows "runStages (preSearchStages e @ searchStages e @ finishStages e) (entryState e c)
           = Inl (Returned x code s) \<or>
         (runStages (preSearchStages e @ searchStages e @ finishStages e) (entryState e c) = Inr s \<and>
          x = AtEnd \<and> code = rslt s)"
  using assms by (auto simp: FindOptimalSchedule_def split: sum.splits)

text \<open>
  C10. When the gate \<open>EnableEnum_\<close> answers false, a run that gets past the producing
  passes returns \<open>RES_FAIL\<close> at the gate: the reference parameters for the best cost,
  the best length, the heuristic cost and the heuristic length are as the caller left
  them, the schedule pointer of the caller is the incumbent (the list schedule or the
  ant colony schedule), and nothing was verified, no final bounds were set, no schedule
  was deleted and the enumerator was not invoked.
\<close>

theorem EnableEnum_false_returns_at_gate:
  assumes "EnableEnum e = False"
      and "FindOptimalSchedule e c = Returned x code s"
      and "x \<notin> {AtNoAlgorithm, AtSetup, AtApplyTrans, AtUpdateSetup, AtListSched, AtAco}"
  shows "x = AtEnableEnum \<and> code = RES_FAIL \<and>
         ref_bestCost s = c_bestCost c \<and> ref_bestSchedLngth s = c_bestSchedLngth c \<and>
         ref_hurstcCost s = c_hurstcCost c \<and> ref_hurstcSchedLngth s = c_hurstcSchedLngth c \<and>
         ref_bestSched s = bestSched s \<and> bestSched s \<noteq> None \<and>
         (bestSched s = lstSched s \<or> bestSched s = AcoSchedule s) \<and>
         verifyCalls s = 0 \<and> finalBounds s = None \<and> deleted s = [] \<and> enumCalls s = 0"
proof -
  let ?run = "runStages (preSearchStages e @ searchStages e @ finishStages e)"
  from FindOptimalSchedule_cases [OF assms(2)]
  have r: "gateReturn e c x code s"
  proof
    assume "?run (entryState e c) = Inl (Returned x code s)"
    with gate_all untouched_entry show ?thesis by (rule triple_Returned)
  next
    assume a: "?run (entryState e c) = Inr s \<and> x = AtEnd \<and> code = rslt s"
    then have "?run (entryState e c) = Inr s" by simp
    with gate_all untouched_entry have "EnableEnum e" by (rule triple_Inr)
    with assms(1) show ?thesis by simp
  qed
  have x: "x = AtEnableEnum"
    using r assms(1,3) by (cases x) (auto simp: gateReturn_def)
  with r show ?thesis by (auto simp: gateReturn_def untouched_def)
qed

lemmas zero_defs =
  heurZero_def acoZero_def settled_def noted_def zeroA_def zeroB_def zeroC_def zeroD_def
  zeroE_def zeroReturn_def

lemma applyTransLoop_zero:
  "zeroA s \<Longrightarrow>
     (case applyTransLoop GTs s of
        Inr s1 \<Rightarrow> zeroA s1
      | Inl Crash \<Rightarrow> True
      | Inl (Returned x code s1) \<Rightarrow> zeroReturn e x code s1)"
  by (induction GTs arbitrary: s) (auto simp: zero_defs)

lemma zero_stageConfig: "stageTriple zeroA (stageConfig e) zeroA (zeroReturn e)"
  by (auto simp: stage_defs zero_defs)

lemma zero_stageSetup: "stageTriple zeroA (stageSetup e) zeroA (zeroReturn e)"
proof -
  have "zeroA (s\<lparr>rslt := r\<rparr>)" if "zeroA s" for s r
    using that by (simp add: zeroA_def)
  then show ?thesis
    using applyTransLoop_zero [where e = e and GTs = "GraphTransformations e"]
    by (auto simp: stage_defs zeroReturn_def heurZero_def acoZero_def zeroA_def)
qed

lemma zero_stageLwrBounds: "stageTriple zeroA (stageLwrBounds e) zeroA (zeroReturn e)"
  by (auto simp: stage_defs zero_defs)

lemma zero_stageHeuristic: "stageTriple zeroA (stageHeuristic e) (zeroB e) (zeroReturn e)"
  by (auto simp: stage_defs zero_defs)

lemma zero_stageAco: "stageTriple (zeroB e) (stageAco e) (zeroC e) (zeroReturn e)"
  by (auto simp: stage_defs zero_defs)

lemma zero_stageIncumbent: "stageTriple (zeroC e) (stageIncumbent e) (zeroC e) (zeroReturn e)"
  by (auto simp: stage_defs zero_defs split: option.splits)

lemma zero_stageUprBounds: "stageTriple (zeroC e) (stageUprBounds e) (zeroC e) (zeroReturn e)"
  by (auto simp: stage_defs zero_defs split: option.splits)

lemma zero_stagePerp: "stageTriple (zeroC e) (stagePerp e) (zeroC e) (zeroReturn e)"
  by (auto simp: stage_defs zero_defs split: option.splits)

lemma zero_stageEnableEnum: "stageTriple (zeroC e) (stageEnableEnum e) (zeroD e) (zeroReturn e)"
  by (auto simp: stage_defs zero_defs)

lemma zero_stageEnum: "stageTriple (zeroD e) (stageEnum e) (zeroE e) (zeroReturn e)"
  by (auto simp: stage_defs zero_defs split: option.splits)

lemma zero_stageAcoAfter: "stageTriple (zeroE e) (stageAcoAfter e) (zeroE e) (zeroReturn e)"
  by (auto simp: stage_defs zero_defs)

lemma zero_stageVerify: "stageTriple (zeroE e) (stageVerify e) (zeroE e) (zeroReturn e)"
  by (auto simp: stage_defs zero_defs split: option.splits)

lemma zero_stageFinalBounds: "stageTriple (zeroE e) (stageFinalBounds e) (zeroE e) (zeroReturn e)"
  by (auto simp: stage_defs zero_defs)

lemma zero_stageChkSchedule: "stageTriple (zeroE e) (stageChkSchedule e) (zeroE e) (zeroReturn e)"
  by (auto simp: stage_defs zero_defs)

lemma zero_stageFree: "stageTriple (zeroE e) (stageFree e) (zeroE e) (zeroReturn e)"
  by (auto simp: stage_defs zero_defs)

lemma zero_stageOutputs: "stageTriple (zeroE e) (stageOutputs e) (zeroE e) (zeroReturn e)"
  by (auto simp: stage_defs zero_defs)

lemma zero_stageDiscard: "stageTriple (zeroE e) (stageDiscard e) (zeroE e) (zeroReturn e)"
  by (auto simp: stage_defs zero_defs)

lemma zeroA_entry: "zeroA (entryState e c)"
  by (simp add: zeroA_def entryState_def)

lemma zero_all:
  "stageTriple zeroA (runStages (preSearchStages e @ searchStages e @ finishStages e))
     (zeroE e) (zeroReturn e)"
  unfolding preSearchStages_def searchStages_def finishStages_def append.simps
  by (intro triple_Cons [OF zero_stageConfig] triple_Cons [OF zero_stageSetup]
      triple_Cons [OF zero_stageLwrBounds] triple_Cons [OF zero_stageHeuristic]
      triple_Cons [OF zero_stageAco] triple_Cons [OF zero_stageIncumbent]
      triple_Cons [OF zero_stageUprBounds] triple_Cons [OF zero_stagePerp]
      triple_Cons [OF zero_stageEnableEnum] triple_Cons [OF zero_stageEnum]
      triple_Cons [OF zero_stageAcoAfter] triple_Cons [OF zero_stageVerify]
      triple_Cons [OF zero_stageFinalBounds] triple_Cons [OF zero_stageChkSchedule]
      triple_Cons [OF zero_stageFree] triple_Cons [OF zero_stageOutputs]
      triple_Cons [OF zero_stageDiscard] triple_Nil)

text \<open>
  C1. When the heuristic pass produced a schedule of cost 0 (the list schedule exists and
  the heuristic cost is 0), or the ant colony pass before the enumeration ran to its end
  and produced a schedule of cost 0, then in the state the run returns with, that
  schedule is the best schedule of the region with the length of that pass and cost 0,
  the enumerator was not invoked, and the flag reported to the caller says optimal.
\<close>

theorem zero_cost_pass_settles_optimality:
  assumes "FindOptimalSchedule e c = Returned x code s"
  shows "(lstSched s \<noteq> None \<and> hurstcCost s = 0 \<longrightarrow>
            bestSched s = Some lstSched_obj \<and> bestSchedLngth s = lst_CrntLngth e \<and> bestCost s = 0 \<and>
            enumCalls s = 0 \<and> isLstOptml s) \<and>
         (AcoSchedule s \<noteq> None \<and> x \<noteq> AtAco \<and> AcoScheduleCost s = 0 \<longrightarrow>
            bestSched s = Some AcoSchedule_obj \<and> bestSchedLngth s = aco_CrntLngth e \<and> bestCost s = 0 \<and>
            enumCalls s = 0 \<and> isLstOptml s)"
proof -
  let ?run = "runStages (preSearchStages e @ searchStages e @ finishStages e)"
  from FindOptimalSchedule_cases [OF assms]
  have "zeroReturn e x code s"
  proof
    assume "?run (entryState e c) = Inl (Returned x code s)"
    with zero_all zeroA_entry show ?thesis by (rule triple_Returned)
  next
    assume "?run (entryState e c) = Inr s \<and> x = AtEnd \<and> code = rslt s"
    then have "?run (entryState e c) = Inr s" by simp
    with zero_all zeroA_entry have "zeroE e s" by (rule triple_Inr)
    then show ?thesis by (simp add: zero_defs)
  qed
  then show ?thesis by (simp add: zero_defs)
qed

lemma applyTransLoop_any:
  "P s \<Longrightarrow> (\<And>s r. P s \<Longrightarrow> P (s\<lparr>rslt := r\<rparr>)) \<Longrightarrow>
     (case applyTransLoop GTs s of
        Inr s1 \<Rightarrow> P s1
      | Inl Crash \<Rightarrow> True
      | Inl (Returned x code s1) \<Rightarrow> True)"
  by (induction GTs arbitrary: s) auto

lemma ran_stageConfig: "stageTriple (noPass e) (stageConfig e) (noPass e) anyReturn"
  by (auto simp: stage_defs noPass_def beforeAco_def produced_def anyReturn_def)

lemma ran_stageSetup: "stageTriple (noPass e) (stageSetup e) (noPass e) anyReturn"
proof -
  have p: "noPass e (s\<lparr>rslt := r\<rparr>)" if "noPass e s" for s r
    using that by (simp add: noPass_def beforeAco_def produced_def)
  show ?thesis
    unfolding stageTriple_def stageSetup_def Let_def
  proof (intro allI impI)
    fix s assume "noPass e s"
    then have "noPass e (s\<lparr>rslt := SetupForSchdulng_rslt e\<rparr>)" by (rule p)
    from applyTransLoop_any [where P = "noPass e", OF this p, of "GraphTransformations e"]
    show "case if rslt (s\<lparr>rslt := SetupForSchdulng_rslt e\<rparr>) \<noteq> RES_SUCCESS
               then Inl (Returned AtSetup (rslt (s\<lparr>rslt := SetupForSchdulng_rslt e\<rparr>))
                          (s\<lparr>rslt := SetupForSchdulng_rslt e\<rparr>))
               else applyTransLoop (GraphTransformations e) (s\<lparr>rslt := SetupForSchdulng_rslt e\<rparr>) of
            Inl Crash \<Rightarrow> True
          | Inl (Returned x code s1) \<Rightarrow> anyReturn x code s1
          | Inr s1 \<Rightarrow> noPass e s1"
      by (auto simp: anyReturn_def split: sum.splits outcome.splits)
  qed
qed

lemma ran_stageLwrBounds: "stageTriple (noPass e) (stageLwrBounds e) (noPass e) anyReturn"
  by (auto simp: stage_defs noPass_def beforeAco_def produced_def anyReturn_def)

lemma ran_stageHeuristic: "stageTriple (noPass e) (stageHeuristic e) (heurRan e) anyReturn"
  by (auto simp: stage_defs noPass_def heurRan_def beforeAco_def produced_def anyReturn_def)

lemma ran_stageAco: "stageTriple (heurRan e) (stageAco e) (passesRan e) anyReturn"
  by (auto simp: stage_defs heurRan_def passesRan_def beforeAco_def produced_def acoRan_def anyReturn_def)

lemma noPass_entry: "noPass e (entryState e c)"
  by (simp add: noPass_def beforeAco_def produced_def entryState_def)

lemma ran_all:
  "stageTriple (noPass e)
     (runStages [stageConfig e, stageSetup e, stageLwrBounds e, stageHeuristic e, stageAco e])
     (passesRan e) anyReturn"
  by (intro triple_Cons [OF ran_stageConfig] triple_Cons [OF ran_stageSetup]
      triple_Cons [OF ran_stageLwrBounds] triple_Cons [OF ran_stageHeuristic]
      triple_Cons [OF ran_stageAco] triple_Nil)

text \<open>
  C2. When no schedule of cost 0 was found before the search: the heuristic pass ran
  exactly when the heuristic is enabled or the region is in its second pass, and the ant
  colony pass ran exactly when it is still switched on. The incumbent is the heuristic
  schedule when the ant colony pass did not run and the heuristic pass did; the ant
  colony schedule when the heuristic pass did not run (it is disabled) and the ant colony
  pass did; and when the heuristic is enabled and both passes ran, the ant colony
  schedule if its cost is strictly lower and the heuristic schedule otherwise, so that
  equal costs keep the heuristic schedule. The caller's schedule pointer is the
  incumbent.
\<close>

theorem incumbent_selection:
  assumes "preSearch e c = Inr s" and "\<not> isLstOptml s"
  shows "(lstSched s = None) = (\<not> (HEUR_ENABLED e \<or> isSecondPass e)) \<and>
         (AcoSchedule s = None) = (\<not> AcoBeforeEnum s) \<and> ref_bestSched s = bestSched s \<and>
         (AcoSchedule s = None \<and> lstSched s \<noteq> None \<longrightarrow>
            bestSched s = Some lstSched_obj \<and> bestSchedLngth s = heuristicScheduleLength s \<and>
            bestCost s = hurstcCost s) \<and>
         (lstSched s = None \<and> AcoSchedule s \<noteq> None \<longrightarrow>
            bestSched s = Some AcoSchedule_obj \<and> bestSchedLngth s = AcoScheduleLength s \<and>
            bestCost s = AcoScheduleCost s) \<and>
         (HEUR_ENABLED e \<and> AcoSchedule s \<noteq> None \<and> AcoScheduleCost s < hurstcCost s \<longrightarrow>
            lstSched s = Some lstSched_obj \<and>
            bestSched s = Some AcoSchedule_obj \<and> bestSchedLngth s = AcoScheduleLength s \<and>
            bestCost s = AcoScheduleCost s) \<and>
         (HEUR_ENABLED e \<and> AcoSchedule s \<noteq> None \<and> \<not> AcoScheduleCost s < hurstcCost s \<longrightarrow>
            bestSched s = Some lstSched_obj \<and> bestSchedLngth s = heuristicScheduleLength s \<and>
            bestCost s = hurstcCost s)"
proof -
  let ?five = "[stageConfig e, stageSetup e, stageLwrBounds e, stageHeuristic e, stageAco e]"
  have split: "preSearchStages e = ?five @ [stageIncumbent e]"
    by (simp add: preSearchStages_def)
  from assms(1) obtain s5 where five: "runStages ?five (entryState e c) = Inr s5"
    and inc: "stageIncumbent e s5 = Inr s"
    unfolding preSearch_def split runStages_append
    by (auto split: sum.splits)
  from ran_all noPass_entry five have "passesRan e s5" by (rule triple_Inr)
  with inc assms(2) show ?thesis
    by (auto simp: stageIncumbent_def passesRan_def acoRan_def produced_def split: if_splits option.splits)
qed

lemma applyTransLoop_code:
  "notSearched s \<Longrightarrow>
     (case applyTransLoop GTs s of
        Inr s1 \<Rightarrow> notSearched s1
      | Inl Crash \<Rightarrow> True
      | Inl (Returned x code s1) \<Rightarrow> earlyReturn x code s1)"
  by (induction GTs arbitrary: s) (auto simp: notSearched_def earlyReturn_def)

lemma code_stageConfig: "stageTriple notSearched (stageConfig e) notSearched earlyReturn"
  by (auto simp: stage_defs notSearched_def earlyReturn_def)

lemma code_stageSetup: "stageTriple notSearched (stageSetup e) notSearched earlyReturn"
proof -
  have "notSearched (s\<lparr>rslt := RES_SUCCESS\<rparr>)" if "notSearched s" for s
    using that by (simp add: notSearched_def)
  then show ?thesis
    using applyTransLoop_code [where GTs = "GraphTransformations e"]
    by (auto simp: stage_defs earlyReturn_def)
qed

lemma code_stageLwrBounds: "stageTriple notSearched (stageLwrBounds e) notSearched earlyReturn"
  by (auto simp: stage_defs notSearched_def earlyReturn_def)

lemma code_stageHeuristic: "stageTriple notSearched (stageHeuristic e) notSearched earlyReturn"
  by (auto simp: stage_defs notSearched_def earlyReturn_def)

lemma code_stageAco: "stageTriple notSearched (stageAco e) notSearched earlyReturn"
  by (auto simp: stage_defs notSearched_def earlyReturn_def)

lemma code_stageIncumbent: "stageTriple notSearched (stageIncumbent e) notSearched earlyReturn"
  by (auto simp: stage_defs notSearched_def earlyReturn_def split: option.splits)

lemma code_stageUprBounds: "stageTriple notSearched (stageUprBounds e) notSearched earlyReturn"
  by (auto simp: stage_defs notSearched_def earlyReturn_def split: option.splits)

lemma code_stagePerp: "stageTriple notSearched (stagePerp e) notSearched earlyReturn"
  by (auto simp: stage_defs notSearched_def earlyReturn_def split: option.splits)

lemma code_stageEnableEnum: "stageTriple notSearched (stageEnableEnum e) notSearched earlyReturn"
  by (auto simp: stage_defs notSearched_def earlyReturn_def)

lemma code_stageEnum: "stageTriple notSearched (stageEnum e) (searchCode e) earlyReturn"
  by (auto simp: stage_defs notSearched_def searchCode_def earlyReturn_def split: option.splits)

lemma code_stageAcoAfter: "stageTriple (searchCode e) (stageAcoAfter e) (searchCode e) earlyReturn"
  by (auto simp: stage_defs searchCode_def earlyReturn_def)

lemma code_stageVerify: "stageTriple (searchCode e) (stageVerify e) (searchCode e) earlyReturn"
  by (auto simp: stage_defs searchCode_def earlyReturn_def split: option.splits)

lemma notSearched_entry: "notSearched (entryState e c)"
  by (simp add: notSearched_def entryState_def)

lemma code_all:
  "stageTriple notSearched (runStages (preSearchStages e @ searchStages e)) (searchCode e) earlyReturn"
  unfolding preSearchStages_def searchStages_def append.simps
  by (intro triple_Cons [OF code_stageConfig] triple_Cons [OF code_stageSetup]
      triple_Cons [OF code_stageLwrBounds] triple_Cons [OF code_stageHeuristic]
      triple_Cons [OF code_stageAco] triple_Cons [OF code_stageIncumbent]
      triple_Cons [OF code_stageUprBounds] triple_Cons [OF code_stagePerp]
      triple_Cons [OF code_stageEnableEnum] triple_Cons [OF code_stageEnum]
      triple_Cons [OF code_stageAcoAfter] triple_Cons [OF code_stageVerify] triple_Nil)

lemma fin_stageFinalBounds:
  "stageTriple (\<lambda>s. s = s0) (stageFinalBounds e) (\<lambda>s. bounded e s0 s \<and> bestCost s = bestCost s0)
     (boundedReturn e s0)"
  by (simp add: stageTriple_def stageFinalBounds_def bounded_def Let_def)

lemma fin_stageChkSchedule:
  "stageTriple (\<lambda>s. bounded e s0 s \<and> bestCost s = bestCost s0) (stageChkSchedule e) (bounded e s0)
     (boundedReturn e s0)"
  by (simp add: stageTriple_def stageChkSchedule_def bounded_def)

lemma fin_stageFree:
  "stageTriple (bounded e s0) (stageFree e) (bounded e s0) (boundedReturn e s0)"
  by (simp add: stageTriple_def stageFree_def bounded_def Let_def)

lemma fin_stageOutputs:
  "stageTriple (bounded e s0) (stageOutputs e) (boundedOut e s0) (boundedReturn e s0)"
  by (simp add: stageTriple_def stageOutputs_def bounded_def boundedOut_def)

lemma fin_stageDiscard:
  "stageTriple (boundedOut e s0) (stageDiscard e) (boundedOut e s0) (boundedReturn e s0)"
  by (simp add: stageTriple_def stageDiscard_def bounded_def boundedOut_def boundedReturn_def Let_def)

lemma fin_all:
  "stageTriple (\<lambda>s. s = s0) (runStages (finishStages e)) (boundedOut e s0) (boundedReturn e s0)"
  unfolding finishStages_def
  by (intro triple_Cons [OF fin_stageFinalBounds] triple_Cons [OF fin_stageChkSchedule]
      triple_Cons [OF fin_stageFree] triple_Cons [OF fin_stageOutputs]
      triple_Cons [OF fin_stageDiscard] triple_Nil)

lemma finishStages_result:
  assumes "runStages (finishStages e) s0 = Inl (Returned x code s) \<or>
           (runStages (finishStages e) s0 = Inr s \<and> x = AtEnd \<and> code = rslt s)"
  shows "finalBounds s =
           Some (if rslt s0 = RES_SUCCESS then costLwrBound s0 + bestCost s0 else costLwrBound s0,
                 costLwrBound s0 + bestCost s0) \<and>
         code = rslt s0 \<and> enumCalls s = enumCalls s0 \<and> costLwrBound s = costLwrBound s0 \<and>
         (ChkSchedule e \<longrightarrow> bestCost s = bestCost s0 \<and> ref_bestCost s = bestCost s0)"
  using assms
proof
  assume "runStages (finishStages e) s0 = Inl (Returned x code s)"
  then have "boundedReturn e s0 x code s" by (rule triple_Returned [OF fin_all refl])
  then show ?thesis by (simp add: boundedReturn_def boundedOut_def bounded_def)
next
  assume a: "runStages (finishStages e) s0 = Inr s \<and> x = AtEnd \<and> code = rslt s"
  then have "runStages (finishStages e) s0 = Inr s" by simp
  then have "boundedOut e s0 s" by (rule triple_Inr [OF fin_all refl])
  with a show ?thesis by (simp add: boundedOut_def bounded_def)
qed

text \<open>
  C8. A run that completes hands \<open>SetFinalBounds\<close> the upper bound
  \<open>costLwrBound + bestCost\<close>, with the best cost as it is when the bounds are set, and
  as lower bound that same upper bound when the result code is \<open>RES_SUCCESS\<close> at that
  point, the cost lower bound otherwise. The result code at that point is the code of the
  enumerator when the enumerator was invoked and \<open>RES_SUCCESS\<close> when it was not.
\<close>

theorem final_bounds:
  assumes "FindOptimalSchedule e c = Returned x code s" and "x = AtEnd \<or> x = AtDiscard"
  shows "\<exists>s0. beforeFinalBounds e c = Inr s0 \<and>
           finalBounds s =
             Some (if rslt s0 = RES_SUCCESS then costLwrBound s0 + bestCost s0 else costLwrBound s0,
                   costLwrBound s0 + bestCost s0) \<and>
           rslt s0 = (if enumCalls s0 = 0 then RES_SUCCESS else enum_rslt e) \<and>
           code = rslt s0 \<and> enumCalls s = enumCalls s0 \<and> costLwrBound s = costLwrBound s0 \<and>
           (ChkSchedule e \<longrightarrow> bestCost s = bestCost s0 \<and> ref_bestCost s = bestCost s0)"
proof -
  let ?front = "preSearchStages e @ searchStages e"
  have all: "runStages (preSearchStages e @ searchStages e @ finishStages e) (entryState e c) =
      (case runStages ?front (entryState e c) of
         Inl out \<Rightarrow> Inl out | Inr s0 \<Rightarrow> runStages (finishStages e) s0)"
    using runStages_append [of ?front "finishStages e"] by simp
  show ?thesis
  proof (cases "runStages ?front (entryState e c)")
    case (Inl out)
    with FindOptimalSchedule_cases [OF assms(1)] all
    have out: "out = Returned x code s" by auto
    from code_all notSearched_entry Inl [unfolded out] have "earlyReturn x code s"
      by (rule triple_Returned)
    with assms(2) show ?thesis by (auto simp: earlyReturn_def)
  next
    case (Inr s0)
    from code_all notSearched_entry Inr have "searchCode e s0" by (rule triple_Inr)
    then have code: "rslt s0 = (if enumCalls s0 = 0 then RES_SUCCESS else enum_rslt e)"
      by (simp add: searchCode_def)
    from FindOptimalSchedule_cases [OF assms(1)] all Inr
    have "runStages (finishStages e) s0 = Inl (Returned x code s) \<or>
           (runStages (finishStages e) s0 = Inr s \<and> x = AtEnd \<and> code = rslt s)" by simp
    from finishStages_result [OF this] code Inr show ?thesis
      by (simp add: beforeFinalBounds_def)
  qed
qed

lemmas run_defs =
  FindOptimalSchedule_def preSearch_def beforeFinalBounds_def preSearchStages_def
  searchStages_def finishStages_def entryState_def isBbEnabled_def
  stageConfig_def stageSetup_def stageLwrBounds_def CmputLwrBounds_def
  stageHeuristic_def stageAco_def stageIncumbent_def stageUprBounds_def CmputUprBounds_def
  stagePerp_def stageEnableEnum_def stageEnum_def Optimize_def RegAlloc_def stageAcoAfter_def
  stageVerify_def stageFinalBounds_def stageChkSchedule_def stageFree_def stageOutputs_def
  stageDiscard_def Let_def exEnv_def exCaller_def

lemma run_exEnv:
  "\<exists>s. FindOptimalSchedule exEnv exCaller = Returned AtEnd RES_SUCCESS s \<and>
       finalBounds s = Some (15, 15) \<and> enumCalls s = 0 \<and> costLwrBound s = 10 \<and> bestCost s = 5"
  by (simp add: run_defs)

lemma run_exSearchEnv:
  "\<exists>s. FindOptimalSchedule exSearchEnv exCaller = Returned AtEnd RES_TIMEOUT s \<and>
       finalBounds s = Some (10, 15) \<and> enumCalls s = 1"
  by (simp add: run_defs exSearchEnv_def)

lemma run_exZeroEnv:
  "\<exists>s. FindOptimalSchedule exZeroEnv exCaller = Returned AtEnd RES_SUCCESS s \<and>
       lstSched s \<noteq> None \<and> hurstcCost s = 0 \<and> ref_bestSched s = Some lstSched_obj \<and>
       ref_bestCost s = 0 \<and> ref_bestSchedLngth s = 5"
  by (simp add: run_defs exZeroEnv_def)

lemma run_exAcoZeroEnv:
  "\<exists>s. FindOptimalSchedule exAcoZeroEnv exCaller = Returned AtEnd RES_SUCCESS s \<and>
       AcoSchedule s \<noteq> None \<and> AcoScheduleCost s = 0 \<and> ref_bestSched s = Some AcoSchedule_obj \<and>
       ref_bestCost s = 0 \<and> ref_bestSchedLngth s = 6"
  by (simp add: run_defs exAcoZeroEnv_def)

lemma run_exGateEnv:
  "\<exists>s. FindOptimalSchedule exGateEnv exCaller = Returned AtEnableEnum RES_FAIL s"
  by (simp add: run_defs exGateEnv_def)

lemma pre_exEnv:
  "\<exists>s. preSearch exEnv exCaller = Inr s \<and> \<not> isLstOptml s \<and> \<not> AcoBeforeEnum s"
  by (simp add: run_defs)

lemma pre_exAcoOnlyEnv:
  "\<exists>s. preSearch exAcoOnlyEnv exCaller = Inr s \<and> \<not> isLstOptml s \<and> AcoBeforeEnum s"
  by (simp add: run_defs exAcoOnlyEnv_def)

lemma pre_exBothEnv:
  "\<exists>s. preSearch exBothEnv exCaller = Inr s \<and> \<not> isLstOptml s \<and> AcoBeforeEnum s \<and>
       AcoScheduleCost s = 7 \<and> hurstcCost s = 10"
  by (simp add: run_defs exBothEnv_def)

lemma pre_exTieEnv:
  "\<exists>s. preSearch exTieEnv exCaller = Inr s \<and> \<not> isLstOptml s \<and> AcoBeforeEnum s \<and>
       AcoScheduleCost s = 7 \<and> hurstcCost s = 7"
  by (simp add: run_defs exTieEnv_def)

theorem zero_cost_pass_settles_optimality_witness:
  "(\<exists>x code s. FindOptimalSchedule exZeroEnv exCaller = Returned x code s \<and>
      lstSched s \<noteq> None \<and> hurstcCost s = 0 \<and>
      bestSched s = Some lstSched_obj \<and> bestSchedLngth s = 5 \<and> bestCost s = 0 \<and>
      enumCalls s = 0 \<and> isLstOptml s) \<and>
   (\<exists>x code s. FindOptimalSchedule exAcoZeroEnv exCaller = Returned x code s \<and>
      AcoSchedule s \<noteq> None \<and> x \<noteq> AtAco \<and> AcoScheduleCost s = 0 \<and>
      bestSched s = Some AcoSchedule_obj \<and> bestSchedLngth s = 6 \<and> bestCost s = 0 \<and>
      enumCalls s = 0 \<and> isLstOptml s)"
proof -
  from run_exZeroEnv obtain s where
    s: "FindOptimalSchedule exZeroEnv exCaller = Returned AtEnd RES_SUCCESS s"
      "lstSched s \<noteq> None" "hurstcCost s = 0" by blast
  from run_exAcoZeroEnv obtain t where
    t: "FindOptimalSchedule exAcoZeroEnv exCaller = Returned AtEnd RES_SUCCESS t"
      "AcoSchedule t \<noteq> None" "AcoScheduleCost t = 0" by blast
  have l: "lst_CrntLngth exZeroEnv = 5" "aco_CrntLngth exAcoZeroEnv = 6"
    by (simp_all add: exZeroEnv_def exAcoZeroEnv_def exEnv_def)
  from zero_cost_pass_settles_optimality [OF s(1)] s l
  have a: "bestSched s = Some lstSched_obj \<and> bestSchedLngth s = 5 \<and> bestCost s = 0 \<and>
      enumCalls s = 0 \<and> isLstOptml s" by simp
  from zero_cost_pass_settles_optimality [OF t(1)] t l
  have b: "bestSched t = Some AcoSchedule_obj \<and> bestSchedLngth t = 6 \<and> bestCost t = 0 \<and>
      enumCalls t = 0 \<and> isLstOptml t" by simp
  from s a t b show ?thesis by blast
qed

theorem incumbent_selection_witness:
  "(\<exists>s. preSearch exEnv exCaller = Inr s \<and> \<not> isLstOptml s \<and>
        AcoSchedule s = None \<and> lstSched s \<noteq> None \<and>
        bestSched s = Some lstSched_obj \<and> bestCost s = hurstcCost s) \<and>
   (\<exists>s. preSearch exAcoOnlyEnv exCaller = Inr s \<and> \<not> isLstOptml s \<and>
        lstSched s = None \<and> AcoSchedule s \<noteq> None \<and>
        bestSched s = Some AcoSchedule_obj \<and> bestCost s = AcoScheduleCost s) \<and>
   (\<exists>s. preSearch exBothEnv exCaller = Inr s \<and> \<not> isLstOptml s \<and>
        HEUR_ENABLED exBothEnv \<and> AcoSchedule s \<noteq> None \<and> AcoScheduleCost s < hurstcCost s \<and>
        bestSched s = Some AcoSchedule_obj \<and> bestCost s = 7) \<and>
   (\<exists>s. preSearch exTieEnv exCaller = Inr s \<and> \<not> isLstOptml s \<and>
        HEUR_ENABLED exTieEnv \<and> AcoSchedule s \<noteq> None \<and> \<not> AcoScheduleCost s < hurstcCost s \<and>
        bestSched s = Some lstSched_obj \<and> bestCost s = 7)"
proof -
  from pre_exEnv obtain s1 where
    s1: "preSearch exEnv exCaller = Inr s1" "\<not> isLstOptml s1" "\<not> AcoBeforeEnum s1" by blast
  from pre_exAcoOnlyEnv obtain s2 where
    s2: "preSearch exAcoOnlyEnv exCaller = Inr s2" "\<not> isLstOptml s2" "AcoBeforeEnum s2" by blast
  from pre_exBothEnv obtain s3 where
    s3: "preSearch exBothEnv exCaller = Inr s3" "\<not> isLstOptml s3" "AcoBeforeEnum s3"
      "AcoScheduleCost s3 = 7" "hurstcCost s3 = 10" by blast
  from pre_exTieEnv obtain s4 where
    s4: "preSearch exTieEnv exCaller = Inr s4" "\<not> isLstOptml s4" "AcoBeforeEnum s4"
      "AcoScheduleCost s4 = 7" "hurstcCost s4 = 7" by blast
  have h: "HEUR_ENABLED exEnv" "\<not> HEUR_ENABLED exAcoOnlyEnv" "\<not> isSecondPass exAcoOnlyEnv"
    "HEUR_ENABLED exBothEnv" "HEUR_ENABLED exTieEnv"
    by (simp_all add: exAcoOnlyEnv_def exBothEnv_def exTieEnv_def exEnv_def)
  from incumbent_selection [OF s1(1,2)] s1 h
  have a: "AcoSchedule s1 = None \<and> lstSched s1 \<noteq> None \<and>
           bestSched s1 = Some lstSched_obj \<and> bestCost s1 = hurstcCost s1" by simp
  from incumbent_selection [OF s2(1,2)] s2 h
  have b: "lstSched s2 = None \<and> AcoSchedule s2 \<noteq> None \<and>
           bestSched s2 = Some AcoSchedule_obj \<and> bestCost s2 = AcoScheduleCost s2" by simp
  from incumbent_selection [OF s3(1,2)] s3 h
  have c: "AcoSchedule s3 \<noteq> None \<and> bestSched s3 = Some AcoSchedule_obj \<and> bestCost s3 = 7" by simp
  from incumbent_selection [OF s4(1,2)] s4 h
  have d: "AcoSchedule s4 \<noteq> None \<and> bestSched s4 = Some lstSched_obj \<and> bestCost s4 = 7" by simp
  have c1: "\<exists>s. preSearch exEnv exCaller = Inr s \<and> \<not> isLstOptml s \<and>
        AcoSchedule s = None \<and> lstSched s \<noteq> None \<and>
        bestSched s = Some lstSched_obj \<and> bestCost s = hurstcCost s"
    using s1 a by blast
  have c2: "\<exists>s. preSearch exAcoOnlyEnv exCaller = Inr s \<and> \<not> isLstOptml s \<and>
        lstSched s = None \<and> AcoSchedule s \<noteq> None \<and>
        bestSched s = Some AcoSchedule_obj \<and> bestCost s = AcoScheduleCost s"
    using s2 b by blast
  have c3: "\<exists>s. preSearch exBothEnv exCaller = Inr s \<and> \<not> isLstOptml s \<and>
        HEUR_ENABLED exBothEnv \<and> AcoSchedule s \<noteq> None \<and> AcoScheduleCost s < hurstcCost s \<and>
        bestSched s = Some AcoSchedule_obj \<and> bestCost s = 7"
    using s3 c h by (intro exI [of _ s3]) simp
  have c4: "\<exists>s. preSearch exTieEnv exCaller = Inr s \<and> \<not> isLstOptml s \<and>
        HEUR_ENABLED exTieEnv \<and> AcoSchedule s \<noteq> None \<and> \<not> AcoScheduleCost s < hurstcCost s \<and>
        bestSched s = Some lstSched_obj \<and> bestCost s = 7"
    using s4 d h by (intro exI [of _ s4]) simp
  from c1 c2 c3 c4 show ?thesis by (intro conjI)
qed

theorem incumbent_tie_counterexample:
  "observe AcoScheduleCost (preSearch exTieEnv exCaller) = Some 7 \<and>
   observe hurstcCost (preSearch exTieEnv exCaller) = Some 7 \<and>
   observe isLstOptml (preSearch exTieEnv exCaller) = Some False \<and>
   observe AcoSchedule (preSearch exTieEnv exCaller) = Some (Some AcoSchedule_obj) \<and>
   observe lstSched (preSearch exTieEnv exCaller) = Some (Some lstSched_obj) \<and>
   observe bestSched (preSearch exTieEnv exCaller) = Some (Some lstSched_obj)"
  by (simp add: observe_def run_defs exTieEnv_def)

theorem final_bounds_witness:
  "(\<exists>x code s. FindOptimalSchedule exEnv exCaller = Returned x code s \<and> (x = AtEnd \<or> x = AtDiscard) \<and>
      (\<exists>s0. beforeFinalBounds exEnv exCaller = Inr s0 \<and> rslt s0 = RES_SUCCESS \<and> enumCalls s0 = 0 \<and>
          finalBounds s = Some (costLwrBound s0 + bestCost s0, costLwrBound s0 + bestCost s0))) \<and>
   (\<exists>x code s. FindOptimalSchedule exSearchEnv exCaller = Returned x code s \<and> (x = AtEnd \<or> x = AtDiscard) \<and>
      (\<exists>s0. beforeFinalBounds exSearchEnv exCaller = Inr s0 \<and> rslt s0 = RES_TIMEOUT \<and> enumCalls s0 = 1 \<and>
          finalBounds s = Some (costLwrBound s0, costLwrBound s0 + bestCost s0)))"
proof -
  from run_exEnv obtain s where
    s: "FindOptimalSchedule exEnv exCaller = Returned AtEnd RES_SUCCESS s" "enumCalls s = 0" by blast
  from run_exSearchEnv obtain t where
    t: "FindOptimalSchedule exSearchEnv exCaller = Returned AtEnd RES_TIMEOUT t" "enumCalls t = 1" by blast
  from final_bounds [OF s(1)] s(2) obtain s0 where
    a: "beforeFinalBounds exEnv exCaller = Inr s0" "rslt s0 = RES_SUCCESS" "enumCalls s0 = 0"
      "finalBounds s = Some (costLwrBound s0 + bestCost s0, costLwrBound s0 + bestCost s0)"
    by (auto split: if_splits)
  from final_bounds [OF t(1)] t(2) obtain t0 where
    b: "beforeFinalBounds exSearchEnv exCaller = Inr t0" "rslt t0 = RES_TIMEOUT" "enumCalls t0 = 1"
      "finalBounds t = Some (costLwrBound t0, costLwrBound t0 + bestCost t0)"
    by (auto split: if_splits)
  from s a t b show ?thesis by blast
qed

theorem final_bounds_without_search_counterexample:
  "observeReturn enumCalls (FindOptimalSchedule exEnv exCaller) = Some 0 \<and>
   observeReturn costLwrBound (FindOptimalSchedule exEnv exCaller) = Some 10 \<and>
   observeReturn bestCost (FindOptimalSchedule exEnv exCaller) = Some 5 \<and>
   observeReturn finalBounds (FindOptimalSchedule exEnv exCaller) = Some (Some (15, 15))"
  by (simp add: observeReturn_def run_defs)

theorem EnableEnum_false_returns_at_gate_witness:
  "EnableEnum exGateEnv = False \<and>
   (\<exists>x code s. FindOptimalSchedule exGateEnv exCaller = Returned x code s \<and>
      x \<notin> {AtNoAlgorithm, AtSetup, AtApplyTrans, AtUpdateSetup, AtListSched, AtAco} \<and>
      x = AtEnableEnum \<and> code = RES_FAIL \<and> ref_bestCost s = 100 \<and> ref_bestSchedLngth s = 200 \<and>
      ref_hurstcCost s = 300 \<and> ref_hurstcSchedLngth s = 400 \<and>
      ref_bestSched s = bestSched s \<and> bestSched s \<noteq> None \<and>
      verifyCalls s = 0 \<and> finalBounds s = None \<and> deleted s = [] \<and> enumCalls s = 0)"
proof -
  have g: "EnableEnum exGateEnv = False" by (simp add: exGateEnv_def)
  from run_exGateEnv obtain s where
    s: "FindOptimalSchedule exGateEnv exCaller = Returned AtEnableEnum RES_FAIL s" by blast
  have x: "AtEnableEnum \<notin> {AtNoAlgorithm, AtSetup, AtApplyTrans, AtUpdateSetup, AtListSched, AtAco}"
    by simp
  from EnableEnum_false_returns_at_gate [OF g s x] g s x show ?thesis
    by (simp add: exCaller_def)
qed

lemma filter_InsrtElmnt: "\<not> P (e, k) \<Longrightarrow> filter P (InsrtElmnt e k xs) = filter P xs"
  by (induction xs) auto

lemma filter_RmvElmnt: "\<forall>k. \<not> P (e, k) \<Longrightarrow> filter P (RmvElmnt e xs) = filter P xs"
  by (induction xs) auto

lemma set_RmvElmnt_subset: "set (RmvElmnt e xs) \<subseteq> set xs"
  by (induction xs) (auto split: if_splits)

lemma set_RmvElmnt:
  "distinct (map fst xs) \<Longrightarrow> set (RmvElmnt e xs) = {x \<in> set xs. fst x \<noteq> e}"
proof (induction xs)
  case Nil
  then show ?case by simp
next
  case (Cons x xs)
  obtain a b where x: "x = (a, b)" by (cases x) auto
  from Cons.prems x have d: "distinct (map fst xs)" and a: "a \<notin> fst ` set xs" by auto
  show ?case
  proof (cases "a = e")
    case True
    have r: "RmvElmnt e (x # xs) = xs" using True x by simp
    have "{y \<in> set (x # xs). fst y \<noteq> e} = {y \<in> set xs. fst y \<noteq> e}"
      using True x by auto
    also have "\<dots> = set xs" using a True by force
    finally show ?thesis unfolding r by simp
  next
    case False
    have r: "RmvElmnt e (x # xs) = x # RmvElmnt e xs" using False x by simp
    have "{y \<in> set (x # xs). fst y \<noteq> e} = insert x {y \<in> set xs. fst y \<noteq> e}"
      using False x by auto
    then show ?thesis unfolding r using Cons.IH [OF d] by simp
  qed
qed

lemma distinct_RmvElmnt: "distinct (map fst xs) \<Longrightarrow> distinct (map fst (RmvElmnt e xs))"
proof (induction xs)
  case Nil
  then show ?case by simp
next
  case (Cons x xs)
  obtain a b where x: "x = (a, b)" by (cases x) auto
  from Cons.prems x have d: "distinct (map fst xs)" and a: "a \<notin> fst ` set xs" by auto
  from a set_RmvElmnt_subset [of e xs] have "a \<notin> fst ` set (RmvElmnt e xs)" by auto
  with Cons.IH [OF d] d x show ?case by simp
qed

lemma map_fst_InsrtElmnt: "set (map fst (InsrtElmnt e k xs)) = insert e (set (map fst xs))"
  by (induction xs) auto

lemma distinct_InsrtElmnt:
  "distinct (map fst xs) \<Longrightarrow> e \<notin> set (map fst xs) \<Longrightarrow> distinct (map fst (InsrtElmnt e k xs))"
proof (induction xs)
  case Nil
  then show ?case by simp
next
  case (Cons x xs)
  obtain a b where x: "x = (a, b)" by (cases x) auto
  from Cons.prems x have d: "distinct (map fst xs)" and a: "a \<notin> set (map fst xs)"
    and e: "e \<notin> set (map fst xs)" and ne: "e \<noteq> a" by auto
  from a ne have "a \<notin> set (map fst (InsrtElmnt e k xs))"
    unfolding map_fst_InsrtElmnt by simp
  with Cons.IH [OF d e] Cons.prems x show ?case by simp
qed

lemma byPriority_InsrtElmnt: "byPriority xs \<Longrightarrow> byPriority (InsrtElmnt e k xs)"
proof (induction xs)
  case Nil
  then show ?case by (simp add: byPriority_def)
next
  case (Cons x xs)
  obtain a b where x: "x = (a, b)" by (cases x) auto
  from Cons.prems x have below: "\<forall>y \<in> set xs. snd y \<le> b" and rest: "byPriority xs"
    by (auto simp: byPriority_def)
  show ?case
  proof (cases "b < k")
    case True
    then have "b \<le> k" by simp
    moreover from below this have "\<forall>y \<in> set xs. snd y \<le> k" by (meson order_trans)
    ultimately show ?thesis using True Cons.prems x by (simp add: byPriority_def)
  next
    case False
    then have "k \<le> b" by simp
    with below Cons.IH [OF rest] False x show ?thesis by (auto simp: byPriority_def)
  qed
qed

lemma byPriority_RmvElmnt: "byPriority xs \<Longrightarrow> byPriority (RmvElmnt e xs)"
proof (induction xs)
  case Nil
  then show ?case by (simp add: byPriority_def)
next
  case (Cons x xs)
  obtain a b where x: "x = (a, b)" by (cases x) auto
  from Cons.prems x have below: "\<forall>y \<in> set xs. snd y \<le> b" and rest: "byPriority xs"
    by (auto simp: byPriority_def)
  from below set_RmvElmnt_subset [of e xs] have "\<forall>y \<in> set (RmvElmnt e xs). snd y \<le> b" by blast
  with Cons.IH [OF rest] rest x show ?case by (simp add: byPriority_def)
qed

lemma BoostElmnt_props:
  assumes "distinct (map fst xs)" and "e \<in> set (map fst xs)"
  shows "set (BoostElmnt e k xs) = insert (e, k) {x \<in> set xs. fst x \<noteq> e}"
    and "distinct (map fst (BoostElmnt e k xs))"
    and "set (map fst (BoostElmnt e k xs)) = set (map fst xs)"
proof -
  show s: "set (BoostElmnt e k xs) = insert (e, k) {x \<in> set xs. fst x \<noteq> e}"
    using assms(1) by (simp add: BoostElmnt_def set_RmvElmnt)
  have "e \<notin> set (map fst (RmvElmnt e xs))"
    using set_RmvElmnt [OF assms(1), of e] by auto
  then show "distinct (map fst (BoostElmnt e k xs))"
    unfolding BoostElmnt_def using distinct_RmvElmnt [OF assms(1)] by (rule distinct_InsrtElmnt [rotated])
  have "fst ` set (BoostElmnt e k xs) = insert e (fst ` {x \<in> set xs. fst x \<noteq> e})"
    unfolding s by simp
  also have "\<dots> = fst ` set xs" using assms(2) by auto
  finally show "set (map fst (BoostElmnt e k xs)) = set (map fst xs)" by simp
qed

lemma filter_BoostElmnt: "\<forall>k'. \<not> P (e, k') \<Longrightarrow> filter P (BoostElmnt e k xs) = filter P xs"
  by (simp add: BoostElmnt_def filter_InsrtElmnt filter_RmvElmnt)

lemma byPriority_BoostElmnt: "byPriority xs \<Longrightarrow> byPriority (BoostElmnt e k xs)"
  by (simp add: BoostElmnt_def byPriority_InsrtElmnt byPriority_RmvElmnt)

lemma scast_int16_inj: "(scast (a :: int16) :: ulong) = scast b \<Longrightarrow> a = b"
proof -
  assume e: "(scast a :: ulong) = scast b"
  have up: "is_up (scast :: int16 \<Rightarrow> ulong)" by (simp add: is_up)
  have "sint a = sint (scast a :: ulong)" using sint_up_scast [OF up] by simp
  also have "\<dots> = sint (scast b :: ulong)" using e by simp
  also have "\<dots> = sint b" using sint_up_scast [OF up] by simp
  finally show "a = b" by (rule signed_word_eqI)
qed

lemma packFields_values:
  assumes "narrow (map (\<lambda>h. (w h, f h)) hs)" and "narrow (map (\<lambda>h. (w h, f' h)) hs)"
      and "sum_list (map w hs) \<le> 64"
      and "packFields (map (\<lambda>h. (w h, f h)) hs) = packFields (map (\<lambda>h. (w h, f' h)) hs)"
  shows "\<forall>h \<in> set hs. f h = f' h"
  using assms
proof (induction hs)
  case Nil
  then show ?case by simp
next
  case (Cons h hs)
  let ?F = "map (\<lambda>h. (w h, f h)) hs"
  let ?F' = "map (\<lambda>h. (w h, f' h)) hs"
  let ?S = "sum_list (map w hs)"
  have sF: "sum_list (map fst ?F) = ?S" and sF': "sum_list (map fst ?F') = ?S"
    by (simp_all add: comp_def)
  from Cons.prems have v: "unat (f h) < 2 ^ w h" and v': "unat (f' h) < 2 ^ w h"
    and n: "narrow ?F" and n': "narrow ?F'" and s: "w h + ?S \<le> 64"
    by (auto simp: narrow_def)
  from s have s0: "?S \<le> 64" by simp
  have R: "unat (packFields ?F) < 2 ^ ?S" using packFields_bound [OF n] sF s0 by simp
  have R': "unat (packFields ?F') < 2 ^ ?S" using packFields_bound [OF n'] sF' s0 by simp
  have e1: "unat (packFields ((w h, f h) # ?F)) = unat (f h) * 2 ^ ?S + unat (packFields ?F)"
    using push_or_unat [OF R v s] sF by simp
  have e2: "unat (packFields ((w h, f' h) # ?F')) = unat (f' h) * 2 ^ ?S + unat (packFields ?F')"
    using push_or_unat [OF R' v' s] sF' by simp
  from Cons.prems(4) have "packFields ((w h, f h) # ?F) = packFields ((w h, f' h) # ?F')" by simp
  then have eq: "unat (f h) * 2 ^ ?S + unat (packFields ?F) = unat (f' h) * 2 ^ ?S + unat (packFields ?F')"
    using e1 e2 by simp
  have "(unat (f h) * 2 ^ ?S + unat (packFields ?F)) div 2 ^ ?S = unat (f h)" using R by simp
  moreover have "(unat (f' h) * 2 ^ ?S + unat (packFields ?F')) div 2 ^ ?S = unat (f' h)" using R' by simp
  ultimately have hd: "unat (f h) = unat (f' h)" using eq by simp
  then have fh: "f h = f' h" by (rule unsigned_word_eqI)
  from eq hd have "unat (packFields ?F) = unat (packFields ?F')" by simp
  then have "packFields ?F = packFields ?F'" by (rule unsigned_word_eqI)
  from Cons.IH [OF n n' s0 this] fh show ?case by simp
qed

lemma sameConfig_fields:
  assumes "sameConfig rl rl'"
  shows "storedBits rl' h = storedBits rl h" and "storedMax rl' h = storedMax rl h"
    and "fieldVal rl' inst h = fieldVal rl inst h"
  using assms by (cases h; simp add: sameConfig_def)+

lemma CmputKey_sameConfig: "sameConfig rl rl' \<Longrightarrow> CmputKey rl' inst u = CmputKey rl inst u"
proof -
  assume sc: "sameConfig rl rl'"
  then have p: "prirts rl' = prirts rl" by (simp add: sameConfig_def)
  have "instFields rl' inst hs = instFields rl inst hs" for inst hs
    by (simp add: instFields_def sameConfig_fields [OF sc])
  then show ?thesis by (simp add: CmputKey_def CmputKeyLoop_keyFold p)
qed

lemma sameConfig_refl: "sameConfig rl rl"
  by (simp add: sameConfig_def)

lemma sameConfig_trans: "sameConfig a b \<Longrightarrow> sameConfig b c \<Longrightarrow> sameConfig a c"
  by (simp add: sameConfig_def)

lemma sameConfig_putInst:
  "sameConfig rl (putInst rl n i)" "sameConfig rl ((putInst rl n i)\<lparr>prirtyLst := L\<rparr>)"
  by (simp_all add: sameConfig_def putInst_def)

lemma fold_boost_filter:
  assumes "\<forall>n \<in> set ns. ch n \<longrightarrow> (\<forall>k. \<not> P (n, k))"
  shows "filter P (fold (boostStep ch nk) ns L) = filter P L"
  using assms
proof (induction ns arbitrary: L)
  case Nil
  then show ?case by simp
next
  case (Cons n ns)
  have "filter P (boostStep ch nk n L) = filter P L"
    using Cons.prems by (simp add: boostStep_def filter_BoostElmnt)
  with Cons.IH [of "boostStep ch nk n L"] Cons.prems show ?case by simp
qed

lemma boostStep_keys:
  assumes "distinct (map fst L)" and "n \<in> fst ` set L"
  shows "distinct (map fst (boostStep ch nk n L))" and "fst ` set (boostStep ch nk n L) = fst ` set L"
  using BoostElmnt_props(2,3) [of L n "nk n"] assms by (simp_all add: boostStep_def)

lemma fold_boost_keys:
  assumes "distinct (map fst L)" and "set ns \<subseteq> fst ` set L"
  shows "distinct (map fst (fold (boostStep ch nk) ns L)) \<and>
         fst ` set (fold (boostStep ch nk) ns L) = fst ` set L"
  using assms
proof (induction ns arbitrary: L)
  case Nil
  then show ?case by simp
next
  case (Cons n ns)
  from Cons.prems(2) have n: "n \<in> fst ` set L" by simp
  note k = boostStep_keys [OF Cons.prems(1) n, of ch nk]
  from Cons.prems(2) k(2) have "set ns \<subseteq> fst ` set (boostStep ch nk n L)" by simp
  from Cons.IH [OF k(1) this] k(2) show ?case by simp
qed

lemma fold_boost_new:
  assumes "distinct (map fst L)" and "set ns \<subseteq> fst ` set L" and "distinct ns"
      and "n \<in> set ns" and "ch n"
  shows "(n, nk n) \<in> set (fold (boostStep ch nk) ns L)"
  using assms
proof (induction ns arbitrary: L)
  case Nil
  then show ?case by simp
next
  case (Cons a ns)
  let ?L1 = "boostStep ch nk a L"
  from Cons.prems(2) have a: "a \<in> fst ` set L" by simp
  note k = boostStep_keys [OF Cons.prems(1) a, of ch nk]
  from Cons.prems(2) k(2) have sub: "set ns \<subseteq> fst ` set ?L1" by simp
  from Cons.prems(3) have dn: "distinct ns" and an: "a \<notin> set ns" by simp_all
  show ?case
  proof (cases "n = a")
    case True
    have "set (BoostElmnt a (nk a) L) = insert (a, nk a) {x \<in> set L. fst x \<noteq> a}"
      using a Cons.prems(1) by (intro BoostElmnt_props(1)) simp_all
    with Cons.prems(5) True have in1: "(a, nk a) \<in> set ?L1" by (simp add: boostStep_def)
    have feq: "filter (\<lambda>x. fst x = a) (fold (boostStep ch nk) ns ?L1) = filter (\<lambda>x. fst x = a) ?L1"
      using an by (intro fold_boost_filter) auto
    from in1 have "(a, nk a) \<in> set (filter (\<lambda>x. fst x = a) ?L1)" by simp
    then have "(a, nk a) \<in> set (filter (\<lambda>x. fst x = a) (fold (boostStep ch nk) ns ?L1))"
      by (simp only: feq)
    then have "(a, nk a) \<in> set (fold (boostStep ch nk) ns ?L1)" by simp
    with True show ?thesis by simp
  next
    case False
    with Cons.prems(4) have "n \<in> set ns" by simp
    from Cons.IH [OF k(1) sub dn this Cons.prems(5)] show ?thesis by simp
  qed
qed

lemma fold_boost_byPriority:
  "byPriority L \<Longrightarrow> byPriority (fold (boostStep ch nk) ns L)"
proof (induction ns arbitrary: L)
  case Nil
  then show ?case by simp
next
  case (Cons n ns)
  have "byPriority (boostStep ch nk n L)"
    using Cons.prems by (simp add: boostStep_def byPriority_BoostElmnt)
  from Cons.IH [OF this] show ?case by simp
qed

lemma UpdatePrioritiesLoop_fold:
  assumes "UpdatePrioritiesLoop ns rl = Inr rl'" and "distinct ns"
  shows "prirtyLst rl' = fold (boostStep (lastUseChanged rl) (newKey rl)) ns (prirtyLst rl) \<and>
         sameConfig rl rl' \<and>
         (\<forall>n \<in> set ns. n < length (insts (dataDepGraph rl)) \<and> recomputedKey rl n \<noteq> None)"
  using assms
proof (induction ns arbitrary: rl)
  case Nil
  then show ?case by (simp add: sameConfig_refl)
next
  case (Cons n ns)
  let ?I = "insts (dataDepGraph rl)"
  from Cons.prems(1) have n: "n < length ?I"
    by (simp add: GetInstByIndx_def split: if_splits)
  from Cons.prems(1) n obtain key c inst1 where ck: "CmputKey rl (?I ! n) True = Inr (key, c, inst1)"
    by (cases "CmputKey rl (?I ! n) True") (auto simp: GetInstByIndx_def)
  define rl1 where "rl1 = (if c then (putInst rl n inst1)\<lparr>prirtyLst := BoostElmnt n key (prirtyLst rl)\<rparr>
                           else putInst rl n inst1)"
  have nxt: "UpdatePrioritiesLoop ns rl1 = Inr rl'"
    using Cons.prems(1) n ck by (simp add: GetInstByIndx_def rl1_def)
  have c: "c = lastUseChanged rl n"
    using CmputKey_result(2) [OF ck] by (simp add: lastUseChanged_def)
  have rk: "recomputedKey rl n = Some key" using ck by (simp add: recomputedKey_def)
  have sc: "sameConfig rl rl1" by (simp add: rl1_def sameConfig_putInst)
  have L1: "prirtyLst rl1 = boostStep (lastUseChanged rl) (newKey rl) n (prirtyLst rl)"
    by (simp add: rl1_def boostStep_def c [symmetric] newKey_def rk putInst_def)
  have I1: "insts (dataDepGraph rl1) = ?I[n := inst1]" by (simp add: rl1_def putInst_def)
  from Cons.prems(2) have dn: "distinct ns" and nn: "n \<notin> set ns" by simp_all
  note ih = Cons.IH [OF nxt dn]
  have same: "lastUseChanged rl1 m = lastUseChanged rl m \<and> recomputedKey rl1 m = recomputedKey rl m"
    if "m \<in> set ns" for m
  proof -
    from that nn have "m \<noteq> n" by auto
    then have "insts (dataDepGraph rl1) ! m = ?I ! m" by (simp add: I1)
    moreover from sc have "prirts rl1 = prirts rl" by (simp add: sameConfig_def)
    ultimately show ?thesis
      by (simp add: lastUseChanged_def recomputedKey_def CmputKey_sameConfig [OF sc])
  qed
  have "fold (boostStep (lastUseChanged rl1) (newKey rl1)) ns (prirtyLst rl1) =
        fold (boostStep (lastUseChanged rl) (newKey rl)) ns (prirtyLst rl1)"
  proof (rule fold_cong [OF refl refl])
    fix m assume "m \<in> set ns"
    from same [OF this] show "boostStep (lastUseChanged rl1) (newKey rl1) m = boostStep (lastUseChanged rl) (newKey rl) m"
      by (simp add: boostStep_def newKey_def fun_eq_iff)
  qed
  with ih have p: "prirtyLst rl' = fold (boostStep (lastUseChanged rl) (newKey rl)) (n # ns) (prirtyLst rl)"
    by (simp add: L1)
  from ih sc have s: "sameConfig rl rl'" by (blast intro: sameConfig_trans)
  have "m < length ?I \<and> recomputedKey rl m \<noteq> None" if "m \<in> set ns" for m
  proof -
    from ih that have "m < length (insts (dataDepGraph rl1)) \<and> recomputedKey rl1 m \<noteq> None" by blast
    with same [OF that] show ?thesis by (simp add: I1)
  qed
  with n rk have a: "\<forall>m \<in> set (n # ns). m < length ?I \<and> recomputedKey rl m \<noteq> None" by simp
  from p s a show ?case by blast
qed

lemma fieldVal_cachedInst:
  "h \<noteq> LSH_LUC \<Longrightarrow> fieldVal rl (cachedInst inst) h = fieldVal rl inst h"
  by (cases h) (simp_all add: cachedInst_def)

lemma keyChanged_lastUseChanged:
  assumes wc: "wellConfigured g rl"
      and d: "distinct (map fst (prirtyLst rl))"
      and kc: "keysCurrent rl"
      and nk: "(n, k) \<in> set (prirtyLst rl)"
      and rk: "recomputedKey rl n \<noteq> None"
  shows "keyChanged rl n = lastUseChanged rl n"
proof -
  let ?inst = "insts (dataDepGraph rl) ! n"
  let ?cfg = "configured (prirts rl)"
  let ?F = "\<lambda>i. map (\<lambda>h. (fieldWidth g h, fieldVal rl i h)) ?cfg"
  from d nk have mo: "map_of (prirtyLst rl) n = Some k" by simp
  from kc nk have "case CmputKey rl (cachedInst ?inst) False of
                     Inl e \<Rightarrow> False | Inr (key, c, i) \<Rightarrow> key = k"
    by (auto simp: keysCurrent_def list_all_iff)
  then obtain c i where ck0: "CmputKey rl (cachedInst ?inst) False = Inr (k, c, i)"
    by (cases "CmputKey rl (cachedInst ?inst) False") auto
  from rk obtain key c' i' where ck1: "CmputKey rl ?inst True = Inr (key, c', i')"
    by (auto simp: recomputedKey_def split: sum.splits)
  then have rk': "recomputedKey rl n = Some key" by (simp add: recomputedKey_def)
  have ch: "keyChanged rl n = (key \<noteq> k)" by (simp add: keyChanged_def rk' mo)
  have k0: "k = packFields (?F (cachedInst ?inst))" by (rule CmputKey_packed(1) [OF wc ck0])
  have k1: "key = packFields (?F ?inst)" by (rule CmputKey_packed(1) [OF wc ck1])
  have n0: "narrow (?F (cachedInst ?inst))" by (rule CmputKey_packed(2) [OF wc ck0])
  have n1: "narrow (?F ?inst)" by (rule CmputKey_packed(2) [OF wc ck1])
  from wc have s: "sum_list (map (fieldWidth g) ?cfg) \<le> 64" by (simp add: wellConfigured_def)
  show ?thesis
  proof (cases "lastUseChanged rl n")
    case True
    then have luc: "LSH_LUC \<in> set ?cfg" and ne: "liveLastUseCnt ?inst \<noteq> lastUseCnt ?inst"
      by (simp_all add: lastUseChanged_def lucChanged_def)
    have "key \<noteq> k"
    proof
      assume "key = k"
      then have "packFields (?F ?inst) = packFields (?F (cachedInst ?inst))" using k0 k1 by simp
      from packFields_values [OF n1 n0 s this] luc
      have "fieldVal rl ?inst LSH_LUC = fieldVal rl (cachedInst ?inst) LSH_LUC" by blast
      then have "(scast (liveLastUseCnt ?inst) :: ulong) = scast (lastUseCnt ?inst)"
        by (simp add: cachedInst_def)
      then have "liveLastUseCnt ?inst = lastUseCnt ?inst" by (rule scast_int16_inj)
      with ne show False by simp
    qed
    with True ch show ?thesis by simp
  next
    case False
    have fe: "?F (cachedInst ?inst) = ?F ?inst"
    proof (cases "LSH_LUC \<in> set ?cfg")
      case True
      with False have "liveLastUseCnt ?inst = lastUseCnt ?inst"
        by (simp add: lastUseChanged_def lucChanged_def)
      then have "cachedInst ?inst = ?inst" by (simp add: cachedInst_def)
      then show ?thesis by simp
    next
      case False
      then have "\<forall>h \<in> set ?cfg. fieldVal rl (cachedInst ?inst) h = fieldVal rl ?inst h"
        by (metis fieldVal_cachedInst)
      then show ?thesis by simp
    qed
    have "key = k" unfolding k0 k1 fe ..
    with False ch show ?thesis by simp
  qed
qed

lemma scast_examples:
  "(scast (1 :: int16) :: ulong) = 1" "(scast (2 :: int16) :: ulong) = 2"
  by simp_all

lemma CmputKey_exDyn:
  "CmputKey (rl\<lparr>useCntBits := 2, crtclPathBits := 3, maxUseCnt := 3, maxCrtclPath := 5, prirts := exDynPrirts\<rparr>)
     (exDynInst n 2 1 2) True = Inr (18, True, exDynInst n 2 2 2)"
  "CmputKey (rl\<lparr>useCntBits := 2, crtclPathBits := 3, maxUseCnt := 3, maxCrtclPath := 5, prirts := exDynPrirts\<rparr>)
     (exDynInst n 3 1 1) True = Inr (11, False, exDynInst n 3 1 1)"
  "CmputKey (rl\<lparr>useCntBits := 2, crtclPathBits := 3, maxUseCnt := 3, maxCrtclPath := 5, prirts := exDynPrirts\<rparr>)
     (exDynInst n 2 1 1) False = Inr (10, True, exDynInst n 2 1 1)"
  "CmputKey (rl\<lparr>useCntBits := 2, crtclPathBits := 3, maxUseCnt := 3, maxCrtclPath := 5, prirts := exDynPrirts\<rparr>)
     (exDynInst n 3 1 1) False = Inr (11, True, exDynInst n 3 1 1)"
  "CmputKey (rl\<lparr>useCntBits := 2, crtclPathBits := 3, maxUseCnt := 3, maxCrtclPath := 5, prirts := exDynPrirts\<rparr>)
     (exDynInst n 2 2 2) True = Inr (18, False, exDynInst n 2 2 2)"
  by (simp_all add: CmputKey_def exDynPrirts_def exDynInst_def exInst_def AddPrirtyToKey_def
      CmputLastUseCnt_def scast_examples)

lemma UpdatePrioritiesLoop_succeeds:
  assumes "distinct ns"
      and "\<forall>n \<in> set ns. n < length (insts (dataDepGraph rl)) \<and> recomputedKey rl n \<noteq> None"
  shows "\<exists>rl'. UpdatePrioritiesLoop ns rl = Inr rl'"
  using assms
proof (induction ns arbitrary: rl)
  case Nil
  then show ?case by simp
next
  case (Cons n ns)
  let ?I = "insts (dataDepGraph rl)"
  from Cons.prems(2) have n: "n < length ?I" and rk: "recomputedKey rl n \<noteq> None" by simp_all
  from rk obtain key c inst1 where ck: "CmputKey rl (?I ! n) True = Inr (key, c, inst1)"
    by (auto simp: recomputedKey_def split: sum.splits)
  define rl1 where "rl1 = (if c then (putInst rl n inst1)\<lparr>prirtyLst := BoostElmnt n key (prirtyLst rl)\<rparr>
                           else putInst rl n inst1)"
  have step: "UpdatePrioritiesLoop (n # ns) rl = UpdatePrioritiesLoop ns rl1"
    using n ck by (simp add: GetInstByIndx_def rl1_def)
  have sc: "sameConfig rl rl1" by (simp add: rl1_def sameConfig_putInst)
  have I1: "insts (dataDepGraph rl1) = ?I[n := inst1]" by (simp add: rl1_def putInst_def)
  from Cons.prems(1) have dn: "distinct ns" and nn: "n \<notin> set ns" by simp_all
  have "m < length (insts (dataDepGraph rl1)) \<and> recomputedKey rl1 m \<noteq> None" if "m \<in> set ns" for m
  proof -
    from that nn have "m \<noteq> n" by auto
    then have "insts (dataDepGraph rl1) ! m = ?I ! m" by (simp add: I1)
    then have "recomputedKey rl1 m = recomputedKey rl m"
      by (simp add: recomputedKey_def CmputKey_sameConfig [OF sc])
    with Cons.prems(2) that show ?thesis by (simp add: I1)
  qed
  then have "\<forall>m \<in> set ns. m < length (insts (dataDepGraph rl1)) \<and> recomputedKey rl1 m \<noteq> None" by blast
  from Cons.IH [OF dn this] step show ?case by simp
qed

text \<open>
  C6. \<open>UpdatePriorities\<close> asserts that the configured scheme is dynamic. Take a ready
  list whose fields are laid out within the 64 bits of the key, which holds one entry for
  each queued instruction, each entry under the key of its instruction at the stored last
  use count. The call returns whenever every key can be recomputed, and then it has
  boosted exactly the entries whose recomputed key differs from their previous key, in
  iteration order. The entries whose recomputed key equals their previous key are not
  boosted: they are the same entries, with the same keys and in the same order among
  themselves; the place of such an entry counted from the head of the list is not kept,
  it moves when a boosted entry passes it. After the call every entry carries the
  recomputed key of its instruction, no entry is lost or added, there is still one entry
  for each instruction, and a list in priority order is still in priority order.
\<close>

theorem UpdatePriorities_boosts_changed_entries:
  assumes wc: "wellConfigured g rl"
      and d: "distinct (map fst (prirtyLst rl))"
      and kc: "keysCurrent rl"
  shows "(\<not> isDynmc (prirts rl) \<longrightarrow> UpdatePriorities rl = Inl AssertFailed) \<and>
         (isDynmc (prirts rl) \<and> (\<forall>n \<in> fst ` set (prirtyLst rl). recomputedKey rl n \<noteq> None) \<longrightarrow>
            (\<exists>rl'. UpdatePriorities rl = Inr rl')) \<and>
         (\<forall>rl'. UpdatePriorities rl = Inr rl' \<longrightarrow>
            prirtyLst rl' = fold (boostStep (keyChanged rl) (newKey rl)) (map fst (prirtyLst rl)) (prirtyLst rl) \<and>
            filter (\<lambda>(n, k). \<not> keyChanged rl n) (prirtyLst rl') =
              filter (\<lambda>(n, k). \<not> keyChanged rl n) (prirtyLst rl) \<and>
            (\<forall>n \<in> fst ` set (prirtyLst rl). map_of (prirtyLst rl') n = recomputedKey rl n) \<and>
            distinct (map fst (prirtyLst rl')) \<and>
            fst ` set (prirtyLst rl') = fst ` set (prirtyLst rl) \<and>
            (byPriority (prirtyLst rl) \<longrightarrow> byPriority (prirtyLst rl')))"
proof (intro conjI allI impI)
  assume "\<not> isDynmc (prirts rl)"
  then show "UpdatePriorities rl = Inl AssertFailed" by (simp add: UpdatePriorities_def)
next
  let ?L = "prirtyLst rl"
  assume a: "isDynmc (prirts rl) \<and> (\<forall>n \<in> fst ` set ?L. recomputedKey rl n \<noteq> None)"
  from kc have "\<forall>n \<in> fst ` set ?L. n < length (insts (dataDepGraph rl))"
    by (auto simp: keysCurrent_def list_all_iff)
  with a have "\<forall>n \<in> set (map fst ?L). n < length (insts (dataDepGraph rl)) \<and> recomputedKey rl n \<noteq> None"
    by simp
  from UpdatePrioritiesLoop_succeeds [OF d this] a
  show "\<exists>rl'. UpdatePriorities rl = Inr rl'" by (simp add: UpdatePriorities_def)
next
  fix rl' :: ReadyList
  let ?L = "prirtyLst rl"
  let ?L' = "prirtyLst rl'"
  let ?ns = "map fst ?L"
  let ?P = "\<lambda>(n, k). \<not> keyChanged rl n"
  assume up: "UpdatePriorities rl = Inr rl'"
  then have loop: "UpdatePrioritiesLoop ?ns rl = Inr rl'"
    by (simp add: UpdatePriorities_def split: if_splits)
  note lf = UpdatePrioritiesLoop_fold [OF loop d]
  from lf have rk: "\<forall>n \<in> set ?ns. recomputedKey rl n \<noteq> None" by blast
  have link: "keyChanged rl n = lastUseChanged rl n" if "n \<in> set ?ns" for n
  proof -
    from that obtain k where "(n, k) \<in> set ?L" by auto
    moreover from rk that have "recomputedKey rl n \<noteq> None" by blast
    ultimately show ?thesis by (rule keyChanged_lastUseChanged [OF wc d kc])
  qed
  have "fold (boostStep (lastUseChanged rl) (newKey rl)) ?ns ?L =
        fold (boostStep (keyChanged rl) (newKey rl)) ?ns ?L"
  proof (rule fold_cong [OF refl refl])
    fix n assume "n \<in> set ?ns"
    from link [OF this]
    show "boostStep (lastUseChanged rl) (newKey rl) n = boostStep (keyChanged rl) (newKey rl) n"
      by (simp add: boostStep_def fun_eq_iff)
  qed
  with lf show f: "?L' = fold (boostStep (keyChanged rl) (newKey rl)) ?ns ?L" by simp
  have sub: "set ?ns \<subseteq> fst ` set ?L" by simp
  show st: "filter ?P ?L' = filter ?P ?L"
    unfolding f by (rule fold_boost_filter) simp
  from fold_boost_keys [OF d sub, of "keyChanged rl" "newKey rl"]
  show d': "distinct (map fst ?L')" and s': "fst ` set ?L' = fst ` set ?L"
    unfolding f by simp_all
  show "\<forall>n \<in> fst ` set ?L. map_of ?L' n = recomputedKey rl n"
  proof
    fix n assume n: "n \<in> fst ` set ?L"
    then have ns: "n \<in> set ?ns" by simp
    from n obtain k where k: "(n, k) \<in> set ?L" by auto
    with d have mo: "map_of ?L n = Some k" by simp
    from rk ns obtain key where key: "recomputedKey rl n = Some key" by blast
    show "map_of ?L' n = recomputedKey rl n"
    proof (cases "keyChanged rl n")
      case True
      from fold_boost_new [OF d sub d ns, of "keyChanged rl" "newKey rl"] True
      have "(n, newKey rl n) \<in> set ?L'" unfolding f by simp
      with d' have "map_of ?L' n = Some (newKey rl n)" by simp
      then show ?thesis by (simp add: key newKey_def)
    next
      case False
      then have eq: "recomputedKey rl n = Some k" by (simp add: keyChanged_def mo)
      from False k have "(n, k) \<in> set (filter ?P ?L)" by simp
      then have "(n, k) \<in> set (filter ?P ?L')" by (simp only: st)
      then have "(n, k) \<in> set ?L'" by simp
      with d' have "map_of ?L' n = Some k" by simp
      with eq show ?thesis by simp
    qed
  qed
  assume "byPriority ?L"
  then show "byPriority ?L'" unfolding f by (rule fold_boost_byPriority)
qed

lemma exGraph_maxima: "GetMaxUseCnt exGraph = 3" "GetRootCrntLwrBound exGraph = 5"
  by (simp_all add: exGraph_def)

lemma fieldWidth_LUC: "fieldWidth exGraph LSH_LUC = 2"
  by (simp add: fieldWidth_def fieldMax_def exGraph_def clcltBitsNeededToHoldNum_def bitsOfNat_examples)

lemma wellConfigured_examples:
  "wellConfigured exGraph exDynList" "wellConfigured exGraph exAfterAddInst"
  by (simp_all add: wellConfigured_def laidOut_def configured_def exDynList_def exAfterAddInst_def
      exReadyList_def exDynPrirts_def exPrirts_def fieldWidth_examples fieldWidth_LUC exGraph_maxima)

lemma cachedInst_examples:
  "cachedInst (exDynInst n cp lst live) = exDynInst n cp lst lst" "cachedInst (exInst n cp uc) = exInst n cp uc"
  by (simp_all add: cachedInst_def exDynInst_def exInst_def)

lemma keysCurrent_examples: "keysCurrent exDynList" "keysCurrent exAfterAddInst"
proof -
  show "keysCurrent exDynList"
    using CmputKey_exDyn(3) [of exDynList 0] CmputKey_exDyn(4) [of exDynList 1]
    by (simp add: keysCurrent_def exDynList_def exReadyList_def exGraph_def cachedInst_examples)
  show "keysCurrent exAfterAddInst"
    using CmputKey_exReadyList(1) [of exAfterAddInst 0]
    by (simp add: keysCurrent_def exAfterAddInst_def exReadyList_def exGraph_def cachedInst_examples)
qed

lemma recomputedKey_examples:
  "recomputedKey exDynList 0 = Some 18" "recomputedKey exDynList 1 = Some 11"
  using CmputKey_exDyn(1) [of exDynList 0] CmputKey_exDyn(2) [of exDynList 1]
  by (simp_all add: recomputedKey_def exDynList_def exReadyList_def exGraph_def)

lemma keyChanged_examples: "keyChanged exDynList 0" "\<not> keyChanged exDynList 1"
proof -
  have m: "map_of (prirtyLst exDynList) 0 = Some 10" "map_of (prirtyLst exDynList) 1 = Some 11"
    by (simp_all add: exDynList_def)
  show "keyChanged exDynList 0" "\<not> keyChanged exDynList 1"
    using recomputedKey_examples m by (simp_all add: keyChanged_def)
qed

lemma UpdatePriorities_example: "UpdatePriorities exDynList = Inr exDynAfter"
  using CmputKey_exDyn(1) [of exDynList 0] CmputKey_exDyn(2) [of exDynList 1]
  by (simp add: UpdatePriorities_def GetInstByIndx_def putInst_def BoostElmnt_def
      exDynList_def exDynAfter_def exReadyList_def exGraph_def exDynPrirts_def)

theorem UpdatePriorities_boosts_changed_entries_witness:
  "wellConfigured exGraph exDynList \<and> distinct (map fst (prirtyLst exDynList)) \<and>
   keysCurrent exDynList \<and> isDynmc (prirts exDynList) \<and>
   recomputedKey exDynList 0 = Some 18 \<and> recomputedKey exDynList 1 = Some 11 \<and>
   UpdatePriorities exDynList = Inr exDynAfter \<and>
   keyChanged exDynList 0 \<and> \<not> keyChanged exDynList 1 \<and>
   prirtyLst exDynList = [(1, 11), (0, 10)] \<and> prirtyLst exDynAfter = [(0, 18), (1, 11)] \<and>
   filter (\<lambda>(n, k). \<not> keyChanged exDynList n) (prirtyLst exDynAfter) =
     filter (\<lambda>(n, k). \<not> keyChanged exDynList n) (prirtyLst exDynList) \<and>
   map_of (prirtyLst exDynAfter) 0 = recomputedKey exDynList 0 \<and>
   map_of (prirtyLst exDynAfter) 1 = recomputedKey exDynList 1 \<and>
   byPriority (prirtyLst exDynList) \<and> byPriority (prirtyLst exDynAfter) \<and>
   wellConfigured exGraph exAfterAddInst \<and> distinct (map fst (prirtyLst exAfterAddInst)) \<and>
   keysCurrent exAfterAddInst \<and> \<not> isDynmc (prirts exAfterAddInst) \<and>
   UpdatePriorities exAfterAddInst = Inl AssertFailed"
proof -
  have d: "distinct (map fst (prirtyLst exDynList))" "distinct (map fst (prirtyLst exAfterAddInst))"
    by (simp_all add: exDynList_def exAfterAddInst_def)
  have dyn: "isDynmc (prirts exDynList)" "\<not> isDynmc (prirts exAfterAddInst)"
    by (simp_all add: exDynList_def exDynPrirts_def exAfterAddInst_def exReadyList_def exPrirts_def)
  have l: "prirtyLst exDynList = [(1, 11), (0, 10)]" "prirtyLst exDynAfter = [(0, 18), (1, 11)]"
    by (simp_all add: exDynList_def exDynAfter_def)
  have bp: "byPriority (prirtyLst exDynList)" by (simp add: l byPriority_def)
  note t1 = UpdatePriorities_boosts_changed_entries [OF wellConfigured_examples(1) d(1) keysCurrent_examples(1)]
  note t2 = UpdatePriorities_boosts_changed_entries [OF wellConfigured_examples(2) d(2) keysCurrent_examples(2)]
  from t1 UpdatePriorities_example bp
  have c1: "filter (\<lambda>(n, k). \<not> keyChanged exDynList n) (prirtyLst exDynAfter) =
              filter (\<lambda>(n, k). \<not> keyChanged exDynList n) (prirtyLst exDynList)"
    and c2: "\<forall>n \<in> fst ` set (prirtyLst exDynList). map_of (prirtyLst exDynAfter) n = recomputedKey exDynList n"
    and c3: "byPriority (prirtyLst exDynAfter)"
    by blast+
  from c2 have c4: "map_of (prirtyLst exDynAfter) 0 = recomputedKey exDynList 0"
    "map_of (prirtyLst exDynAfter) 1 = recomputedKey exDynList 1"
    unfolding l(1) by simp_all
  from t2 dyn(2) have c5: "UpdatePriorities exAfterAddInst = Inl AssertFailed" by blast
  show ?thesis
    using wellConfigured_examples d keysCurrent_examples dyn recomputedKey_examples
      UpdatePriorities_example keyChanged_examples l c1 c4 bp c3 c5
    by (intro conjI)
qed

lemma UpdatePriorities_duplicate_example: "UpdatePriorities exDupList = Inr exDupAfter"
  using CmputKey_exDyn(1) [of exDupList 0] CmputKey_exDyn(5) [of exDupAfter 0]
  by (simp add: UpdatePriorities_def GetInstByIndx_def putInst_def BoostElmnt_def
      exDupList_def exDupAfter_def exDynList_def exDynAfter_def exReadyList_def exGraph_def exDynPrirts_def)

lemma num_exDynInst: "num (exDynInst n cp lst live) = n"
  by (simp add: exDynInst_def)

lemma AddInst_twice_example:
  "AddInst exDupStart 0 = Inr exDupOnce" "AddInst exDupOnce 0 = Inr exDupTwice"
  using CmputKey_exDyn(3) [of exDupStart 0] CmputKey_exDyn(3) [of exDupOnce 0]
  by (simp_all add: AddInst_def GetInstByIndx_def putInst_def exDupStart_def exDupOnce_def exDupTwice_def
      exReadyList_def exGraph_def num_exDynInst)

lemma recomputedKey_duplicate_example: "recomputedKey exDupList 0 = Some 18"
  using CmputKey_exDyn(1) [of exDupList 0]
  by (simp add: recomputedKey_def exDupList_def exDynList_def exReadyList_def exGraph_def)

theorem UpdatePriorities_position_counterexample:
  "UpdatePriorities exDynList = Inr exDynAfter \<and>
   prirtyLst exDynList = [(1, 11), (0, 10)] \<and> recomputedKey exDynList 1 = Some 11 \<and>
   prirtyLst exDynAfter = [(0, 18), (1, 11)] \<and>
   prirtyLst exDynList ! 0 = (1, 11) \<and> prirtyLst exDynAfter ! 0 \<noteq> (1, 11) \<and>
   prirtyLst exDynAfter ! 1 = (1, 11) \<and>
   AddInst exDupStart 0 = Inr exDupOnce \<and> AddInst exDupOnce 0 = Inr exDupTwice \<and>
   prirtyLst exDupTwice = [(0, 10), (0, 10)] \<and>
   exDupList = putInst exDupTwice 0 (exDynInst 0 2 1 2) \<and>
   recomputedKey exDupList 0 = Some 18 \<and>
   UpdatePriorities exDupList = Inr exDupAfter \<and>
   prirtyLst exDupAfter = [(0, 18), (0, 10)]"
proof -
  have l: "prirtyLst exDynList = [(1, 11), (0, 10)]" "prirtyLst exDynAfter = [(0, 18), (1, 11)]"
    "prirtyLst exDupTwice = [(0, 10), (0, 10)]" "prirtyLst exDupAfter = [(0, 18), (0, 10)]"
    by (simp_all add: exDynList_def exDynAfter_def exDupTwice_def exDupAfter_def)
  have n: "prirtyLst exDynList ! 0 = (1, 11)" "prirtyLst exDynAfter ! 0 \<noteq> (1, 11)"
    "prirtyLst exDynAfter ! 1 = (1, 11)"
    by (simp_all add: l)
  have p: "exDupList = putInst exDupTwice 0 (exDynInst 0 2 1 2)"
    by (simp add: exDupList_def exDupTwice_def exDupStart_def exDynList_def putInst_def)
  show ?thesis
    using UpdatePriorities_example l(1) recomputedKey_examples(2) l(2) n AddInst_twice_example l(3) p
      recomputedKey_duplicate_example UpdatePriorities_duplicate_example l(4)
    by (intro conjI)
qed

end
